theory Spec2Isabelle
  imports Main "HOL-Library.Char_ord"
begin

section \<open>Data model of trex.go\<close>

text \<open>
  A byte is a \<^typ>\<open>char\<close> (eight bits), a byte slice is a \<^typ>\<open>string\<close>.
  The order on bytes is the order of their values (\<open>HOL-Library.Char_ord\<close>).
  The node tags are the constants of the Go type \<open>Type\<close>, in the order of the source;
  \<open>None\<close>, \<open>Char\<close> and \<open>Plus\<close> carry the suffix \<open>T\<close> because HOL has constants of
  these names.
\<close>

datatype Type =
    NoneT | Begin | End | Quant | LQuant | QMark | LQMark | Star | LStar | PlusT | LPlus
  | Dot | CharT | Class | NClass | Digit | NDigit | Alpha | NAlpha | Space | NSpace

definition MaxNodes :: nat where "MaxNodes = 64"
definition MaxBufLen :: nat where "MaxBufLen = 128"
definition MaxQuant :: int where "MaxQuant = 1024"
definition MaxPlus :: int where "MaxPlus = 40000"

text \<open>
  The struct \<open>node\<close>. The field \<open>typ\<close> is called \<open>ntyp\<close> here. The slice \<open>ccl\<close> aliases the
  buffer of the pattern (\<open>re.buffer[idx:]\<close>): it is kept as the offset at which it starts,
  \<open>None\<close> for the nil slice, and read through \<open>slice\<close> from the buffer, so that bytes
  written to the buffer after the slice was taken are seen through it, as in Go.
  The array \<open>mn [2]int\<close> is the two fields \<open>mn0\<close> and \<open>mn1\<close>.
\<close>

record node =
  ntyp :: Type
  ch :: char
  ccl :: "nat option"
  mn0 :: int
  mn1 :: int

record Regexp =
  nodes :: "node list"
  buffer :: string

definition zero_node :: node where
  "zero_node = \<lparr>ntyp = NoneT, ch = CHR 0x00, ccl = None, mn0 = 0, mn1 = 0\<rparr>"

definition slice :: "string \<Rightarrow> nat option \<Rightarrow> string" where
  "slice buf c = (case c of None \<Rightarrow> [] | Some off \<Rightarrow> drop off buf)"

text \<open>
  Go's \<open>int\<close> is modelled at its width on 64-bit platforms: a mathematical integer that
  every arithmetic operation reduces to the signed 64-bit range, as Go's wrapping
  arithmetic does.
\<close>

definition wrap64 :: "int \<Rightarrow> int" where
  "wrap64 x = (x + 9223372036854775808) mod 18446744073709551616 - 9223372036854775808"

definition add64 :: "int \<Rightarrow> int \<Rightarrow> int" where "add64 a b = wrap64 (a + b)"
definition sub64 :: "int \<Rightarrow> int \<Rightarrow> int" where "sub64 a b = wrap64 (a - b)"
definition mul64 :: "int \<Rightarrow> int \<Rightarrow> int" where "mul64 a b = wrap64 (a * b)"

text \<open>
  What a call can end in besides its value: one of the errors that \<open>compile\<close> returns
  through \<open>fmt.Errorf\<close>, or a run-time panic of Go (an index or a slice bound out of
  range). The error constructors stand for the messages of the source:
  \<^item> \<open>EmptyExpression\<close>: "An empty expression string"
  \<^item> \<open>NonQuantStar\<close>, \<open>NonQuantPlus\<close>, \<open>NonQuantQMark\<close>, \<open>NonQuantBrace\<close>:
    "Non-quantifiable before *", "... before +", "... before ?", "... before {m,n}"
  \<^item> \<open>DanglingEsc\<close>: "Dangling \"; \<open>DanglingEscInClass\<close>: "Dangling \ in class"
  \<^item> \<open>OverflowEscChar\<close>: "Buffer overflow at <esc>char in class"
  \<^item> \<open>OverflowChar\<close>: "Buffer overflow at [esc]char in class"
  \<^item> \<open>IncorrectRange\<close>: "Incorrect range in class"
  \<^item> \<open>OverflowRange\<close>: "Buffer overflow at range - in class"
  \<^item> \<open>NonTerminatedClass\<close>: "Non terminated class"
  \<^item> \<open>NonDigitMin\<close>: "Non-digit in quantifier min value"
  \<^item> \<open>MinTooBig\<close>: "Quantifier min value too big"
  \<^item> \<open>UnexpectedEnd\<close>: "Unexpected end of string in quantifier"
  \<^item> \<open>NonDigitMax\<close>: "Non-digit in quantifier max value"
  \<^item> \<open>MaxTooBigOrLess\<close>: "Quantifier max value too big or less than min value"
\<close>

datatype compile_error =
    EmptyExpression
  | NonQuantStar | NonQuantPlus | NonQuantQMark | NonQuantBrace
  | DanglingEsc | DanglingEscInClass
  | OverflowEscChar | OverflowChar | IncorrectRange | OverflowRange
  | NonTerminatedClass
  | NonDigitMin | MinTooBig | UnexpectedEnd | NonDigitMax | MaxTooBigOrLess

datatype fault = Error compile_error | Panic

section \<open>Byte predicates\<close>

definition isMeta :: "char \<Rightarrow> bool" where
  "isMeta c \<longleftrightarrow> c = CHR ''s'' \<or> c = CHR ''S'' \<or> c = CHR ''w'' \<or> c = CHR ''W''
     \<or> c = CHR ''d'' \<or> c = CHR ''D''"

definition isMetaOrEsc :: "char \<Rightarrow> bool" where
  "isMetaOrEsc c \<longleftrightarrow> c = CHR 0x5C \<or> isMeta c"

definition matchDot :: "char \<Rightarrow> bool" where
  "matchDot b \<longleftrightarrow> b \<noteq> CHR 0x0A \<and> b \<noteq> CHR 0x0D"

definition matchDigit :: "char \<Rightarrow> bool" where
  "matchDigit b \<longleftrightarrow> CHR ''0'' \<le> b \<and> b \<le> CHR ''9''"

definition matchAlpha :: "char \<Rightarrow> bool" where
  "matchAlpha b \<longleftrightarrow> (CHR ''a'' \<le> b \<and> b \<le> CHR ''z'') \<or> (CHR ''A'' \<le> b \<and> b \<le> CHR ''Z'')"

definition matchAlphaNum :: "char \<Rightarrow> bool" where
  "matchAlphaNum b \<longleftrightarrow> b = CHR ''_'' \<or> matchAlpha b \<or> matchDigit b"

definition matchSpace :: "char \<Rightarrow> bool" where
  "matchSpace b \<longleftrightarrow> b = CHR '' '' \<or> b = CHR 0x09 \<or> b = CHR 0x0A \<or> b = CHR 0x0D
     \<or> b = CHR 0x0C \<or> b = CHR 0x0B"

definition matchMetaChar :: "char \<Rightarrow> char \<Rightarrow> bool" where
  "matchMetaChar b mb =
     (if mb = CHR ''d'' then matchDigit b
      else if mb = CHR ''D'' then \<not> matchDigit b
      else if mb = CHR ''w'' then matchAlphaNum b
      else if mb = CHR ''W'' then \<not> matchAlphaNum b
      else if mb = CHR ''s'' then matchSpace b
      else if mb = CHR ''S'' then \<not> matchSpace b
      else b = mb)"

section \<open>The compiler\<close>

text \<open>\<open>re.nodes[j].typ = t\<close> and the other field assignments, for an index inside the array.\<close>

definition set_typ :: "node list \<Rightarrow> nat \<Rightarrow> Type \<Rightarrow> node list" where
  "set_typ ns j t = ns[j := (ns ! j)\<lparr>ntyp := t\<rparr>]"

definition set_ch :: "node list \<Rightarrow> nat \<Rightarrow> char \<Rightarrow> node list" where
  "set_ch ns j c = ns[j := (ns ! j)\<lparr>ch := c\<rparr>]"

definition set_ccl :: "node list \<Rightarrow> nat \<Rightarrow> nat \<Rightarrow> node list" where
  "set_ccl ns j off = ns[j := (ns ! j)\<lparr>ccl := Some off\<rparr>]"

definition set_mn0 :: "node list \<Rightarrow> nat \<Rightarrow> int \<Rightarrow> node list" where
  "set_mn0 ns j v = ns[j := (ns ! j)\<lparr>mn0 := v\<rparr>]"

definition set_mn1 :: "node list \<Rightarrow> nat \<Rightarrow> int \<Rightarrow> node list" where
  "set_mn1 ns j v = ns[j := (ns ! j)\<lparr>mn1 := v\<rparr>]"

text \<open>
  The test \<open>ii < n && expr[ii] == '?'\<close> with \<open>ii = i + 1\<close>, which decides between the
  greedy and the lazy form of a quantifier (and, with \<open>^\<close>, the negation of a class).
\<close>

definition next_is :: "string \<Rightarrow> nat \<Rightarrow> char \<Rightarrow> bool" where
  "next_is expr i c \<longleftrightarrow> i + 1 < length expr \<and> expr ! (i + 1) = c"

text \<open>
  One pass of the body of the loop that copies a class into the buffer (lines 212 to 273),
  entered with \<open>i < n\<close> and \<open>expr[i] \<noteq> ']'\<close>. It returns \<open>i\<close>, \<open>idx\<close> and the buffer as they
  are when the pass ends, by \<open>continue\<close> or at the end of the body; the loop then does
  its \<open>i++\<close>. Every read \<open>expr[k]\<close> with \<open>k\<close> not known to be below \<open>n\<close> panics when it is not,
  and so does a write to the buffer outside its length.
\<close>

definition class_range :: "string \<Rightarrow> nat \<Rightarrow> nat \<Rightarrow> string \<Rightarrow> fault + (nat \<times> nat \<times> string)" where
  "class_range expr i idx buf =
     (let n = length expr in
      if i + 1 \<ge> n then Inl Panic
      else if expr ! (i + 1) \<noteq> CHR ''-'' \<or> i + 2 \<ge> n \<or> expr ! (i + 2) = CHR '']''
        then Inr (i, idx, buf)
      else
        let rmax = (CHR 0x5C = expr ! (i + 2)) in
        if rmax \<and> (i + 3 \<ge> n \<or> isMeta (expr ! (i + 3))) then Inr (i, idx, buf)
        else
          let c = (if rmax then expr ! (i + 3) else expr ! (i + 2)) in
          if c < expr ! i then Inl (Error IncorrectRange)
          else if idx > MaxBufLen - 2 then Inl (Error OverflowRange)
          else if idx \<ge> length buf then Inl Panic
          else Inr (i + 1, idx + 1, buf[idx := expr ! (i + 1)]))"

definition class_body :: "string \<Rightarrow> nat \<Rightarrow> nat \<Rightarrow> string \<Rightarrow> fault + (nat \<times> nat \<times> string)" where
  "class_body expr i idx buf =
     (let n = length expr in
      if expr ! i = CHR 0x5C then
        let ii = i + 1 in
        if ii \<ge> n then Inl (Error DanglingEscInClass)
        else if isMetaOrEsc (expr ! ii) then
          if idx > MaxBufLen - 3 then Inl (Error OverflowEscChar)
          else if idx + 1 \<ge> length buf then Inl Panic
          else
            let buf1 = buf[idx := expr ! i];
                buf2 = buf1[idx + 1 := expr ! ii] in
            if ii + 1 \<ge> n then Inl Panic
            else if expr ! (ii + 1) \<noteq> CHR 0x5C then Inr (ii, idx + 2, buf2)
            else class_range expr ii (idx + 2) buf2
        else
          if idx > MaxBufLen - 2 then Inl (Error OverflowChar)
          else if idx \<ge> length buf then Inl Panic
          else class_range expr ii (idx + 1) (buf[idx := expr ! ii])
      else
        if idx > MaxBufLen - 2 then Inl (Error OverflowChar)
        else if idx \<ge> length buf then Inl Panic
        else class_range expr i (idx + 1) (buf[idx := expr ! i]))"

lemma class_range_mono:
  "class_range expr i idx buf = Inr (i', idx', buf') \<Longrightarrow> i \<le> i'"
  by (auto simp: class_range_def Let_def split: if_splits)

lemma class_body_mono:
  "class_body expr i idx buf = Inr (i', idx', buf') \<Longrightarrow> i \<le> i'"
  by (auto simp: class_body_def Let_def split: if_splits dest: class_range_mono)

text \<open>The loop \<open>for i++; i < n && expr[i] != ']'; i++\<close>, entered after its \<open>i++\<close>.\<close>

function class_loop :: "string \<Rightarrow> nat \<Rightarrow> nat \<Rightarrow> string \<Rightarrow> fault + (nat \<times> nat \<times> string)" where
  "class_loop expr i idx buf =
     (if i < length expr \<and> expr ! i \<noteq> CHR '']'' then
        (case class_body expr i idx buf of
           Inl e \<Rightarrow> Inl e
         | Inr (i', idx', buf') \<Rightarrow> class_loop expr (i' + 1) idx' buf')
      else Inr (i, idx, buf))"
  by pat_completeness auto
termination
  by (relation "measure (\<lambda>(expr, i, idx, buf). length expr - i)")
     (auto dest: class_body_mono)

declare class_loop.simps [simp del]

text \<open>
  The two digit loops of the quantifier \<open>{m,n}\<close> (lines 291 to 301 and 317 to 323).
  \<open>digit_val c\<close> is \<open>int(c - '0')\<close> for a digit \<open>c\<close>.
\<close>

definition digit_val :: "char \<Rightarrow> int" where
  "digit_val c = int (of_char c) - 48"

function quant_min :: "string \<Rightarrow> nat \<Rightarrow> int \<Rightarrow> fault + (nat \<times> int)" where
  "quant_min expr i val =
     (if i \<ge> length expr \<or> expr ! i < CHR ''0'' \<or> expr ! i > CHR ''9''
        then Inl (Error NonDigitMin)
      else
        let val' = add64 (mul64 10 val) (digit_val (expr ! i));
            i' = i + 1 in
        if i' \<ge> length expr then Inl Panic
        else if expr ! i' = CHR '','' \<or> expr ! i' = CHR ''}'' then Inr (i', val')
        else quant_min expr i' val')"
  by pat_completeness auto
termination
  by (relation "measure (\<lambda>(expr, i, val). length expr - i)") auto

declare quant_min.simps [simp del]

function quant_max :: "string \<Rightarrow> nat \<Rightarrow> int \<Rightarrow> fault + (nat \<times> int)" where
  "quant_max expr i val =
     (if i \<ge> length expr then Inl Panic
      else if expr ! i = CHR ''}'' then Inr (i, val)
      else if expr ! i < CHR ''0'' \<or> expr ! i > CHR ''9'' then Inl (Error NonDigitMax)
      else quant_max expr (i + 1) (add64 (mul64 10 val) (digit_val (expr ! i))))"
  by pat_completeness auto
termination
  by (relation "measure (\<lambda>(expr, i, val). length expr - i)") auto

declare quant_max.simps [simp del]

lemma class_loop_mono:
  "class_loop expr i idx buf = Inr (i', idx', buf') \<Longrightarrow> i \<le> i'"
proof (induction expr i idx buf rule: class_loop.induct)
  case (1 expr i idx buf)
  show ?case
  proof (cases "i < length expr \<and> expr ! i \<noteq> CHR '']''")
    case False
    with "1.prems" show ?thesis by (simp add: class_loop.simps)
  next
    case True
    with "1.prems" obtain i1 idx1 buf1 where
      b: "class_body expr i idx buf = Inr (i1, idx1, buf1)" and
      l: "class_loop expr (i1 + 1) idx1 buf1 = Inr (i', idx', buf')"
      by (subst (asm) class_loop.simps) (auto split: sum.splits)
    from "1.IH" [OF True b refl refl l] class_body_mono [OF b] show ?thesis by simp
  qed
qed

lemma quant_min_mono:
  "quant_min expr i val = Inr (i', val') \<Longrightarrow> i \<le> i'"
proof (induction expr i val rule: quant_min.induct)
  case (1 expr i val)
  then show ?case
    by (subst (asm) (2) quant_min.simps) (fastforce simp: Let_def split: if_splits)
qed

lemma quant_max_mono:
  "quant_max expr i val = Inr (i', val') \<Longrightarrow> i \<le> i'"
proof (induction expr i val rule: quant_max.induct)
  case (1 expr i val)
  then show ?case
    by (subst (asm) (2) quant_max.simps) (fastforce split: if_splits)
qed

text \<open>
  The cases of the \<open>switch\<close> of \<open>compile\<close>. Each returns \<open>i\<close>, \<open>idx\<close>, \<open>quable\<close>, the nodes
  and the buffer as they are at the end of the case, for the node index \<open>j < MaxNodes\<close>
  of the pass.
\<close>

type_synonym cstate = "nat \<times> nat \<times> bool \<times> node list \<times> string"

text \<open>The cases \<open>*\<close>, \<open>+\<close> and \<open>?\<close>: \<open>greedy\<close> and \<open>lazy\<close> are the two tags of the quantifier.\<close>

definition compile_quantifier ::
  "string \<Rightarrow> nat \<Rightarrow> nat \<Rightarrow> nat \<Rightarrow> bool \<Rightarrow> node list \<Rightarrow> string
     \<Rightarrow> compile_error \<Rightarrow> Type \<Rightarrow> Type \<Rightarrow> fault + cstate" where
  "compile_quantifier expr i j idx quable ns buf err greedy lazy =
     (if \<not> quable then Inl (Error err)
      else if next_is expr i CHR ''?'' then Inr (i + 1, idx, False, set_typ ns j lazy, buf)
      else Inr (i, idx, False, set_typ ns j greedy, buf))"

text \<open>The case of the backslash (lines 174 to 196).\<close>

definition compile_escape ::
  "string \<Rightarrow> nat \<Rightarrow> nat \<Rightarrow> nat \<Rightarrow> node list \<Rightarrow> string \<Rightarrow> fault + cstate" where
  "compile_escape expr i j idx ns buf =
     (let i1 = i + 1 in
      if i1 \<ge> length expr then Inl (Error DanglingEsc)
      else
        let c = expr ! i1 in
        Inr (i1, idx, True,
          (if c = CHR ''d'' then set_typ ns j Digit
           else if c = CHR ''D'' then set_typ ns j NDigit
           else if c = CHR ''w'' then set_typ ns j Alpha
           else if c = CHR ''W'' then set_typ ns j NAlpha
           else if c = CHR ''s'' then set_typ ns j Space
           else if c = CHR ''S'' then set_typ ns j NSpace
           else set_ch (set_typ ns j CharT) j c),
          buf))"

text \<open>
  The case \<open>[\<close> (lines 199 to 281): the tag, the slice \<open>re.buffer[idx:]\<close>, the loop that
  copies the class, the test for the closing bracket and the terminating zero byte.
\<close>

definition compile_class ::
  "string \<Rightarrow> nat \<Rightarrow> nat \<Rightarrow> nat \<Rightarrow> node list \<Rightarrow> string \<Rightarrow> fault + cstate" where
  "compile_class expr i j idx ns buf =
     (let i1 = (if next_is expr i CHR ''^'' then i + 1 else i);
          ns1 = set_typ ns j (if next_is expr i CHR ''^'' then NClass else Class) in
      if idx > length buf then Inl Panic
      else
        (case class_loop expr (i1 + 1) idx buf of
           Inl e \<Rightarrow> Inl e
         | Inr (i2, idx2, buf2) \<Rightarrow>
             if i2 \<ge> length expr then Inl Panic
             else if expr ! i2 \<noteq> CHR '']'' then Inl (Error NonTerminatedClass)
             else if idx2 \<ge> length buf2 then Inl Panic
             else Inr (i2, idx2 + 1, True, set_ccl ns1 j idx, buf2[idx2 := CHR 0x00])))"

text \<open>The case \<open>{\<close> (lines 283 to 335).\<close>

definition compile_braces ::
  "string \<Rightarrow> nat \<Rightarrow> nat \<Rightarrow> nat \<Rightarrow> bool \<Rightarrow> node list \<Rightarrow> string \<Rightarrow> fault + cstate" where
  "compile_braces expr i j idx quable ns buf =
     (if \<not> quable then Inl (Error NonQuantBrace)
      else
        (case quant_min expr (i + 1) 0 of
           Inl e \<Rightarrow> Inl e
         | Inr (i1, val) \<Rightarrow>
             if val > MaxQuant then Inl (Error MinTooBig)
             else
               let ns1 = set_mn0 ns j val;
                   r = (if expr ! i1 = CHR '','' then
                          (let i2 = i1 + 1 in
                           if i2 \<ge> length expr then Inl (Error UnexpectedEnd)
                           else if expr ! i2 = CHR ''}'' then Inr (i2, MaxQuant)
                           else
                             (case quant_max expr i2 0 of
                                Inl e \<Rightarrow> Inl e
                              | Inr (i3, val3) \<Rightarrow>
                                  if val3 > MaxQuant \<or> val3 < val
                                    then Inl (Error MaxTooBigOrLess)
                                  else Inr (i3, val3)))
                        else Inr (i1, val)) in
               (case r of
                  Inl e \<Rightarrow> Inl e
                | Inr (i4, val4) \<Rightarrow>
                    if next_is expr i4 CHR ''?''
                      then Inr (i4 + 1, idx, False, set_mn1 (set_typ ns1 j LQuant) j val4, buf)
                    else Inr (i4, idx, False, set_mn1 (set_typ ns1 j Quant) j val4, buf))))"

text \<open>The \<open>switch expr[i]\<close> as a whole, for \<open>i < n\<close>.\<close>

definition compile_step ::
  "string \<Rightarrow> nat \<Rightarrow> nat \<Rightarrow> nat \<Rightarrow> bool \<Rightarrow> node list \<Rightarrow> string \<Rightarrow> fault + cstate" where
  "compile_step expr i j idx quable ns buf =
     (let c = expr ! i in
      if c = CHR ''^'' then Inr (i, idx, False, set_typ ns j Begin, buf)
      else if c = CHR ''$'' then Inr (i, idx, False, set_typ ns j End, buf)
      else if c = CHR ''.'' then Inr (i, idx, True, set_typ ns j Dot, buf)
      else if c = CHR ''*'' then compile_quantifier expr i j idx quable ns buf NonQuantStar Star LStar
      else if c = CHR ''+'' then compile_quantifier expr i j idx quable ns buf NonQuantPlus PlusT LPlus
      else if c = CHR ''?'' then compile_quantifier expr i j idx quable ns buf NonQuantQMark QMark LQMark
      else if c = CHR 0x5C then compile_escape expr i j idx ns buf
      else if c = CHR ''['' then compile_class expr i j idx ns buf
      else if c = CHR ''{'' then compile_braces expr i j idx quable ns buf
      else Inr (i, idx, True, set_ch (set_typ ns j CharT) j c, buf))"

lemma compile_step_mono:
  assumes "compile_step expr i j idx quable ns buf = Inr (i', idx', quable', ns', buf')"
  shows "i \<le> i'"
proof -
  have q: "\<And>err g l. compile_quantifier expr i j idx quable ns buf err g l
      = Inr (i', idx', quable', ns', buf') \<Longrightarrow> i \<le> i'"
    by (auto simp: compile_quantifier_def split: if_splits)
  have e: "compile_escape expr i j idx ns buf = Inr (i', idx', quable', ns', buf') \<Longrightarrow> i \<le> i'"
    by (auto simp: compile_escape_def Let_def split: if_splits)
  have c: "compile_class expr i j idx ns buf = Inr (i', idx', quable', ns', buf') \<Longrightarrow> i \<le> i'"
    by (auto simp: compile_class_def Let_def split: if_splits sum.splits
          dest!: class_loop_mono)
  have b: "compile_braces expr i j idx quable ns buf = Inr (i', idx', quable', ns', buf')
      \<Longrightarrow> i \<le> i'"
    by (auto simp: compile_braces_def Let_def split: if_splits sum.splits
          dest!: quant_min_mono quant_max_mono)
  from assms q e c b show ?thesis
    by (auto simp: compile_step_def Let_def split: if_splits)
qed

text \<open>
  The loop \<open>for i := 0; i < n && (j+1 < MaxNodes); i, j = i+1, j+1\<close>, and \<open>compile\<close>:
  the two arrays start zeroed, and the node after the last one written gets the tag
  \<open>None\<close>.
\<close>

function compile_loop ::
  "string \<Rightarrow> nat \<Rightarrow> nat \<Rightarrow> nat \<Rightarrow> bool \<Rightarrow> node list \<Rightarrow> string
     \<Rightarrow> fault + (nat \<times> node list \<times> string)" where
  "compile_loop expr i j idx quable ns buf =
     (if i < length expr \<and> j + 1 < MaxNodes then
        (case compile_step expr i j idx quable ns buf of
           Inl e \<Rightarrow> Inl e
         | Inr (i', idx', quable', ns', buf') \<Rightarrow>
             compile_loop expr (i' + 1) (j + 1) idx' quable' ns' buf')
      else Inr (j, ns, buf))"
  by pat_completeness auto
termination
  by (relation "measure (\<lambda>(expr, i, j, idx, quable, ns, buf). length expr - i)")
     (auto dest: compile_step_mono)

declare compile_loop.simps [simp del]

definition compile :: "string \<Rightarrow> fault + Regexp" where
  "compile expr =
     (if length expr = 0 then Inl (Error EmptyExpression)
      else
        (case compile_loop expr 0 0 0 False (replicate MaxNodes zero_node)
                (replicate MaxBufLen (CHR 0x00)) of
           Inl e \<Rightarrow> Inl e
         | Inr (j, ns, buf) \<Rightarrow>
             if j < length ns then Inr \<lparr>nodes = set_typ ns j NoneT, buffer = buf\<rparr>
             else Inl Panic))"

definition Compile :: "string \<Rightarrow> fault + Regexp" where
  "Compile expr = compile expr"

section \<open>The matcher\<close>

text \<open>\<open>bytes.IndexByte\<close>: the index of the first \<open>c\<close>, or \<open>-1\<close>.\<close>

fun IndexByte :: "string \<Rightarrow> char \<Rightarrow> int" where
  "IndexByte [] c = - 1"
| "IndexByte (x # xs) c =
     (if x = c then 0 else (let r = IndexByte xs c in if r < 0 then - 1 else r + 1))"

text \<open>
  The loop of \<open>matchCharClass\<close>. The slice \<open>str\<close> of the source is always \<open>str0[i:]\<close>, for
  the (truncated) payload \<open>str0\<close> and the index \<open>i\<close> that the source keeps beside it, so
  \<open>str[k]\<close> is \<open>str0[i + k]\<close> and panics outside the length of \<open>str0\<close>; \<open>txt\<close> is the payload
  before truncation, which \<open>txt[i-1]\<close> reads. \<open>class_range_test\<close> is the second half of
  the body (lines 513 to 531), entered with the index after the element just tested.
\<close>

function class_walk :: "char \<Rightarrow> string \<Rightarrow> string \<Rightarrow> nat \<Rightarrow> fault + bool" where
  "class_walk b txt str0 i =
     (let n = length str0 in
      if i \<ge> n then Inl Panic
      else if str0 ! i = CHR 0x00 then Inr False
      else if str0 ! i = CHR 0x5C \<and> i + 1 \<ge> n then Inl Panic
      else if str0 ! i = CHR 0x5C \<and> matchMetaChar b (str0 ! (i + 1)) then Inr True
      else if str0 ! i \<noteq> CHR 0x5C \<and> str0 ! i = b then Inr True
      else
        let i1 = (if str0 ! i = CHR 0x5C then i + 2 else i + 1) in
        if i1 \<ge> n then Inl Panic
        else if str0 ! i = CHR 0x5C \<and> isMeta (str0 ! i1) then class_walk b txt str0 i1
        else if str0 ! i1 \<noteq> CHR ''-'' then class_walk b txt str0 i1
        else if i1 + 1 \<ge> n then Inl Panic
        else if str0 ! (i1 + 1) = CHR 0x00 then class_walk b txt str0 i1
        else if str0 ! (i1 + 1) = CHR 0x5C \<and> i1 + 2 \<ge> n then Inl Panic
        else if str0 ! (i1 + 1) = CHR 0x5C \<and> isMeta (str0 ! (i1 + 2))
          then class_walk b txt str0 i1
        else
          let rmax = (if str0 ! (i1 + 1) = CHR 0x5C then str0 ! (i1 + 2) else str0 ! (i1 + 1)) in
          if i1 - 1 \<ge> length txt then Inl Panic
          else if b \<ge> txt ! (i1 - 1) \<and> b \<le> rmax then Inr True
          else class_walk b txt str0 (i1 + 1))"
  by pat_completeness auto
termination
  by (relation "measure (\<lambda>(b, txt, str0, i). length str0 - i)") (auto split: if_splits)

declare class_walk.simps [simp del]

definition matchCharClass :: "char \<Rightarrow> string \<Rightarrow> fault + bool" where
  "matchCharClass b txt =
     (let i = IndexByte txt (CHR 0x00);
          str = (if i > 0 then take (nat i + 1) txt else txt) in
      class_walk b txt str 0)"

text \<open>\<open>!matchCharClass(b, n.ccl)\<close>: the negation of a result, a panic staying a panic.\<close>

definition negate :: "fault + bool \<Rightarrow> fault + bool" where
  "negate r = (case r of Inl e \<Rightarrow> Inl e | Inr v \<Rightarrow> Inr (\<not> v))"

text \<open>
  \<open>matchOne\<close>, with the buffer that the slice \<open>n.ccl\<close> of a class node points into.
\<close>

definition matchOne :: "string \<Rightarrow> node \<Rightarrow> char \<Rightarrow> fault + bool" where
  "matchOne buf n b =
     (case ntyp n of
        CharT \<Rightarrow> Inr (ch n = b)
      | Dot \<Rightarrow> Inr (matchDot b)
      | Class \<Rightarrow> matchCharClass b (slice buf (ccl n))
      | NClass \<Rightarrow> negate (matchCharClass b (slice buf (ccl n)))
      | Digit \<Rightarrow> Inr (matchDigit b)
      | NDigit \<Rightarrow> Inr (\<not> matchDigit b)
      | Alpha \<Rightarrow> Inr (matchAlphaNum b)
      | NAlpha \<Rightarrow> Inr (\<not> matchAlphaNum b)
      | Space \<Rightarrow> Inr (matchSpace b)
      | NSpace \<Rightarrow> Inr (\<not> matchSpace b)
      | _ \<Rightarrow> Inr False)"

text \<open>
  The loop \<open>for cnt != 0 && i < len(txt) && matchOne(nodes[0], txt[i]) { i++; cnt-- }\<close>
  that opens \<open>matchQuant\<close> (with \<open>cnt = max\<close>) and \<open>matchLQuant\<close> (with \<open>cnt = min\<close>).
  It returns \<open>i\<close> and the counter.
\<close>

function consume :: "string \<Rightarrow> node list \<Rightarrow> string \<Rightarrow> nat \<Rightarrow> int \<Rightarrow> fault + (nat \<times> int)" where
  "consume buf ns txt i cnt =
     (if cnt \<noteq> 0 \<and> i < length txt then
        (case ns of
           [] \<Rightarrow> Inl Panic
         | a # _ \<Rightarrow>
             (case matchOne buf a (txt ! i) of
                Inl e \<Rightarrow> Inl e
              | Inr m \<Rightarrow> if m then consume buf ns txt (i + 1) (sub64 cnt 1) else Inr (i, cnt)))
      else Inr (i, cnt))"
  by pat_completeness auto
termination
  by (relation "measure (\<lambda>(buf, ns, txt, i, cnt). length txt - i)") auto

declare consume.simps [simp del]

text \<open>
  \<open>match\<close>, \<open>matchQuant\<close> and \<open>matchLQuant\<close> call each other. \<open>matchQuant_loop\<close> is the
  loop \<open>for i >= min\<close> of \<open>matchQuant\<close> over the nodes \<open>nn = nodes[2:]\<close>, where \<open>txt[i:]\<close>
  panics for a negative \<open>i\<close>; \<open>matchLQuant_loop\<close> is the final loop of \<open>matchLQuant\<close>,
  with the atom \<open>a = nodes[0]\<close> and \<open>nn = nodes[2:]\<close>, a slice that panics when
  \<open>nodes\<close> has fewer than two elements.
\<close>

function match :: "string \<Rightarrow> node list \<Rightarrow> string \<Rightarrow> fault + bool"
  and matchQuant :: "string \<Rightarrow> node list \<Rightarrow> string \<Rightarrow> int \<Rightarrow> int \<Rightarrow> fault + bool"
  and matchQuant_loop :: "string \<Rightarrow> node list \<Rightarrow> string \<Rightarrow> int \<Rightarrow> int \<Rightarrow> fault + bool"
  and matchLQuant :: "string \<Rightarrow> node list \<Rightarrow> string \<Rightarrow> int \<Rightarrow> int \<Rightarrow> fault + bool"
  and matchLQuant_loop :: "string \<Rightarrow> node \<Rightarrow> node list \<Rightarrow> string \<Rightarrow> int \<Rightarrow> fault + bool"
where
  "match buf ns txt =
     (case ns of
        [] \<Rightarrow> Inl Panic
      | n0 # ns1 \<Rightarrow>
          if ntyp n0 = NoneT then Inr True
          else
            (case ns1 of
               [] \<Rightarrow> Inl Panic
             | n1 # _ \<Rightarrow>
                 if ntyp n0 = End \<and> ntyp n1 = NoneT then Inr (length txt = 0)
                 else if ntyp n1 = QMark then matchQuant buf ns txt 0 1
                 else if ntyp n1 = LQMark then matchLQuant buf ns txt 0 1
                 else if ntyp n1 = Quant then matchQuant buf ns txt (mn0 n1) (mn1 n1)
                 else if ntyp n1 = LQuant then matchLQuant buf ns txt (mn0 n1) (mn1 n1)
                 else if ntyp n1 = Star then matchQuant buf ns txt 0 MaxPlus
                 else if ntyp n1 = LStar then matchLQuant buf ns txt 0 MaxPlus
                 else if ntyp n1 = PlusT then matchQuant buf ns txt 1 MaxPlus
                 else if ntyp n1 = LPlus then matchLQuant buf ns txt 1 MaxPlus
                 else
                   (case txt of
                      [] \<Rightarrow> Inr False
                    | c # txt1 \<Rightarrow>
                        (case matchOne buf n0 c of
                           Inl e \<Rightarrow> Inl e
                         | Inr m \<Rightarrow> if m then match buf ns1 txt1 else Inr False))))"
| "matchQuant buf ns txt mn mx =
     (case consume buf ns txt 0 mx of
        Inl e \<Rightarrow> Inl e
      | Inr (i, mx') \<Rightarrow>
          (case ns of
             a # q # nn \<Rightarrow> matchQuant_loop buf nn txt mn (int i)
           | _ \<Rightarrow> Inl Panic))"
| "matchQuant_loop buf nn txt mn i =
     (if i \<ge> mn then
        (if i < 0 \<or> i > int (length txt) then Inl Panic
         else
           (case match buf nn (drop (nat i) txt) of
              Inl e \<Rightarrow> Inl e
            | Inr m \<Rightarrow> if m then Inr True else matchQuant_loop buf nn txt mn (i - 1)))
      else Inr False)"
| "matchLQuant buf ns txt mn mx =
     (let mx1 = add64 (sub64 mx mn) 1 in
      (case consume buf ns txt 0 mn of
         Inl e \<Rightarrow> Inl e
       | Inr (i, mn') \<Rightarrow>
           if mn' \<noteq> 0 then Inr False
           else
             (case ns of
                a # q # nn \<Rightarrow> matchLQuant_loop buf a nn (drop i txt) mx1
              | _ \<Rightarrow> Inl Panic)))"
| "matchLQuant_loop buf a nn txt mx =
     (case match buf nn txt of
        Inl e \<Rightarrow> Inl e
      | Inr m \<Rightarrow>
          if m then Inr True
          else
            let mx1 = sub64 mx 1 in
            if mx1 = 0 then Inr False
            else
              (case txt of
                 [] \<Rightarrow> Inr False
               | c # txt1 \<Rightarrow>
                   (case matchOne buf a c of
                      Inl e \<Rightarrow> Inl e
                    | Inr m1 \<Rightarrow>
                        if m1 then matchLQuant_loop buf a nn txt1 mx1 else Inr False)))"
  by pat_completeness auto

termination
  by (relation "inv_image (less_than <*lex*> less_than)
     (\<lambda>x. case x of
         Inl (Inl (buf, ns, t)) \<Rightarrow> (4 * length ns + 2, 0)
       | Inl (Inr (buf, ns, t, mn, mx)) \<Rightarrow> (4 * length ns + 1, 0)
       | Inr (Inl (buf, nn, t, mn, i)) \<Rightarrow> (4 * length nn + 3, nat (i + 1))
       | Inr (Inr (Inl (buf, ns, t, mn, mx))) \<Rightarrow> (4 * length ns + 1, 0)
       | Inr (Inr (Inr (buf, a, nn, t, mx))) \<Rightarrow> (4 * length nn + 3, length t))")
     auto

declare match.simps [simp del] matchQuant.simps [simp del] matchQuant_loop.simps [simp del]
  matchLQuant.simps [simp del] matchLQuant_loop.simps [simp del]

text \<open>
  \<open>Regexp.Match\<close>: \<open>Match_loop\<close> is the loop \<open>for len(b) > 0\<close>, which tries \<open>match\<close> on \<open>b\<close>
  and goes on with \<open>b[1:]\<close>.
\<close>

fun Match_loop :: "string \<Rightarrow> node list \<Rightarrow> string \<Rightarrow> fault + bool" where
  "Match_loop buf ns [] = Inr False"
| "Match_loop buf ns (c # b1) =
     (case match buf ns (c # b1) of
        Inl e \<Rightarrow> Inl e
      | Inr m \<Rightarrow> if m then Inr True else Match_loop buf ns b1)"

definition Match :: "Regexp \<Rightarrow> string \<Rightarrow> fault + bool" where
  "Match re b =
     (if length b = 0 then Inr False
      else
        (case nodes re of
           [] \<Rightarrow> Inl Panic
         | n0 # ns1 \<Rightarrow>
             if ntyp n0 = Begin then match (buffer re) ns1 b
             else Match_loop (buffer re) (nodes re) b))"

section \<open>Readings of the specification\<close>

text \<open>
  "Try the match at each offset in turn; return \<open>true\<close> on the first success, \<open>false\<close>
  when all have been tried", over the list of the results of the attempts in the order
  in which they are made. An attempt that panics ends the search.
\<close>

fun first_success :: "(fault + bool) list \<Rightarrow> fault + bool" where
  "first_success [] = Inr False"
| "first_success (r # rs) =
     (case r of Inl e \<Rightarrow> Inl e | Inr m \<Rightarrow> if m then Inr True else first_success rs)"

text \<open>
  The encoding of a class in the buffer, as amended for C9, over the bytes between the
  brackets: a backslash before a meta-letter or before another backslash stays, with
  the byte it escapes; a backslash before any other byte is dropped and the byte stays;
  every other byte is copied.
\<close>

fun encode_class :: "string \<Rightarrow> string" where
  "encode_class (c # d # cs) =
     (if c = CHR 0x5C then
        (if isMetaOrEsc d then c # d # encode_class cs else d # encode_class cs)
      else c # encode_class (d # cs))"
| "encode_class cs = cs"


text \<open>
  The lazy form of a pattern, on its nodes: every greedy quantifier becomes the lazy
  quantifier with the same bounds, and nothing else changes.
\<close>

definition lazy_type :: "Type \<Rightarrow> Type" where
  "lazy_type t = (if t = Quant then LQuant else if t = QMark then LQMark
     else if t = Star then LStar else if t = PlusT then LPlus else t)"

definition lazy_form :: "node \<Rightarrow> node" where
  "lazy_form n = n\<lparr>ntyp := lazy_type (ntyp n)\<rparr>"

text \<open>The number of leading bytes of a text that an atom matches.\<close>

definition run :: "string \<Rightarrow> node \<Rightarrow> string \<Rightarrow> nat" where
  "run buf a s = length (takeWhile (\<lambda>c. matchOne buf a c = Inr True) s)"

text \<open>The tags of the quantifier nodes.\<close>

definition is_quant :: "Type \<Rightarrow> bool" where
  "is_quant t \<longleftrightarrow> t = Quant \<or> t = LQuant \<or> t = QMark \<or> t = LQMark \<or> t = Star \<or> t = LStar
     \<or> t = PlusT \<or> t = LPlus"

text \<open>
  A class payload that \<open>matchCharClass\<close> can walk: read element by element (a backslash
  takes the byte after it, which is not zero, as part of its element), it reaches a
  zero byte where an element would start.
\<close>

fun wf_payload :: "string \<Rightarrow> bool" where
  "wf_payload [] = False"
| "wf_payload (c # cs) =
     (if c = CHR 0x00 then True
      else if c = CHR 0x5C then (case cs of [] \<Rightarrow> False | d # ds \<Rightarrow> d \<noteq> CHR 0x00 \<and> wf_payload ds)
      else wf_payload cs)"

section \<open>Compilation of malformed patterns\<close>

lemma class_loop_exit:
  "class_loop expr i idx buf = Inr (i', idx', buf') \<Longrightarrow>
     i' \<ge> length expr \<or> expr ! i' = CHR '']''"
proof (induction expr i idx buf rule: class_loop.induct)
  case (1 expr i idx buf)
  show ?case
  proof (cases "i < length expr \<and> expr ! i \<noteq> CHR '']''")
    case False
    with "1.prems" show ?thesis by (auto simp: class_loop.simps)
  next
    case True
    with "1.prems" obtain i1 idx1 buf1 where
      b: "class_body expr i idx buf = Inr (i1, idx1, buf1)" and
      l: "class_loop expr (i1 + 1) idx1 buf1 = Inr (i', idx', buf')"
      by (subst (asm) class_loop.simps) (auto split: sum.splits)
    from "1.IH" [OF True b refl refl l] show ?thesis .
  qed
qed

lemma class_range_terminated:
  "class_range expr i idx buf \<noteq> Inl (Error NonTerminatedClass)"
  by (simp add: class_range_def Let_def)

lemma class_body_terminated:
  "class_body expr i idx buf \<noteq> Inl (Error NonTerminatedClass)"
  by (simp add: class_body_def Let_def class_range_terminated)

lemma class_loop_terminated:
  "class_loop expr i idx buf \<noteq> Inl (Error NonTerminatedClass)"
proof (induction expr i idx buf rule: class_loop.induct)
  case (1 expr i idx buf)
  show ?case
  proof (cases "i < length expr \<and> expr ! i \<noteq> CHR '']''")
    case False
    then show ?thesis by (subst class_loop.simps) auto
  next
    case True
    show ?thesis
    proof (cases "class_body expr i idx buf")
      case (Inl e)
      with True class_body_terminated [of expr i idx buf] show ?thesis
        by (subst class_loop.simps) simp
    next
      case (Inr r)
      obtain i1 idx1 buf1 where r: "r = (i1, idx1, buf1)" by (cases r) auto
      with Inr have b: "class_body expr i idx buf = Inr (i1, idx1, buf1)" by simp
      from "1.IH" [OF True b refl refl] b True show ?thesis
        by (subst class_loop.simps) simp
    qed
  qed
qed

lemma compile_class_terminated:
  "compile_class expr i j idx ns buf \<noteq> Inl (Error NonTerminatedClass)"
proof
  assume a: "compile_class expr i j idx ns buf = Inl (Error NonTerminatedClass)"
  let ?i1 = "if next_is expr i CHR ''^'' then i + 1 else i"
  show False
  proof (cases "class_loop expr (?i1 + 1) idx buf")
    case (Inl e)
    with a class_loop_terminated [of expr "?i1 + 1" idx buf] show ?thesis
      by (auto simp: compile_class_def Let_def split: if_splits)
  next
    case (Inr r)
    then obtain i2 idx2 buf2 where r: "class_loop expr (?i1 + 1) idx buf = Inr (i2, idx2, buf2)"
      by (cases r) auto
    from class_loop_exit [OF r] a r show False
      by (auto simp: compile_class_def Let_def split: if_splits)
  qed
qed

lemma quant_min_terminated:
  "quant_min expr i val \<noteq> Inl (Error NonTerminatedClass)"
proof (induction expr i val rule: quant_min.induct)
  case (1 expr i val)
  then show ?case by (subst quant_min.simps) (simp add: Let_def)
qed

lemma quant_max_terminated:
  "quant_max expr i val \<noteq> Inl (Error NonTerminatedClass)"
proof (induction expr i val rule: quant_max.induct)
  case (1 expr i val)
  then show ?case by (subst quant_max.simps) simp
qed

lemma compile_braces_terminated:
  "compile_braces expr i j idx quable ns buf \<noteq> Inl (Error NonTerminatedClass)"
  using quant_min_terminated [of expr "i + 1" 0]
  by (auto simp: compile_braces_def Let_def quant_max_terminated split: sum.splits if_splits)

lemma compile_step_terminated:
  "compile_step expr i j idx quable ns buf \<noteq> Inl (Error NonTerminatedClass)"
  by (simp add: compile_step_def Let_def compile_quantifier_def compile_escape_def
        compile_class_terminated compile_braces_terminated)

lemma compile_loop_terminated:
  "compile_loop expr i j idx quable ns buf \<noteq> Inl (Error NonTerminatedClass)"
proof (induction expr i j idx quable ns buf rule: compile_loop.induct)
  case (1 expr i j idx quable ns buf)
  show ?case
  proof (cases "i < length expr \<and> j + 1 < MaxNodes")
    case False
    then show ?thesis by (subst compile_loop.simps) auto
  next
    case True
    show ?thesis
    proof (cases "compile_step expr i j idx quable ns buf")
      case (Inl e)
      with True compile_step_terminated [of expr i j idx quable ns buf] show ?thesis
        by (subst compile_loop.simps) simp
    next
      case (Inr r)
      obtain i1 idx1 q1 ns1 buf1 where r: "r = (i1, idx1, q1, ns1, buf1)" by (cases r) auto
      with Inr have b: "compile_step expr i j idx quable ns buf = Inr (i1, idx1, q1, ns1, buf1)"
        by simp
      from "1.IH" [OF True b refl refl refl refl] b True show ?thesis
        by (subst compile_loop.simps) simp
    qed
  qed
qed

text \<open>
  C1. A pattern with a \<open>[\<close> that no \<open>]\<close> closes should make \<open>Compile\<close> return the error
  "Non terminated class". On \<open>[abc\<close> it does not: after the last byte \<open>c\<close> is copied, the
  range test reads \<open>expr[i+1]\<close> one past the end of the pattern (line 249), and \<open>Compile\<close>
  panics before it reaches the test for the closing bracket. No pattern at all gets
  this error: the loop over the class ends on a \<open>]\<close> or past the end of the pattern, and
  past the end the test \<open>expr[i] != ']'\<close> itself panics.
\<close>

theorem Compile_unterminated_class_panics:
  "Compile ''[abc'' = Inl Panic \<and> (\<forall>expr. Compile expr \<noteq> Inl (Error NonTerminatedClass))"
proof -
  have "Compile ''[abc'' = Inl Panic" unfolding Compile_def by code_simp
  moreover have "Compile expr \<noteq> Inl (Error NonTerminatedClass)" for expr
    using compile_loop_terminated [of expr 0 0 0 False "replicate MaxNodes zero_node"
        "replicate MaxBufLen (CHR 0x00)"]
    by (auto simp: Compile_def compile_def split: sum.splits)
  ultimately show ?thesis by simp
qed

text \<open>
  C2. A quantifier \<open>{m\<close> or \<open>{m,n\<close> whose closing brace is missing because the pattern
  ends should make \<open>Compile\<close> return one of the quantifier errors. On \<open>a{3\<close> and on
  \<open>a{3,4\<close> it panics instead: both digit loops read \<open>expr[i]\<close> after their \<open>i++\<close>
  without testing \<open>i\<close> against the length (lines 298 and 317). And a bound above
  \<open>MaxQuant\<close> should be refused, but \<open>a{18446744073709551617}\<close> (the bound is
  \<open>2^64 + 1\<close>) compiles to the quantifier \<open>{1,1}\<close>: the test \<open>val > MaxQuant\<close> comes
  after the digits have been accumulated in an \<open>int\<close> that wraps.
\<close>

theorem Compile_unclosed_quantifier_panics:
  "Compile ''a{3'' = Inl Panic \<and> Compile ''a{3,4'' = Inl Panic
   \<and> \<not> isl (Compile ''a{18446744073709551617}'')
   \<and> map (\<lambda>n. (ntyp n, mn0 n, mn1 n))
         (take 3 (nodes (projr (Compile ''a{18446744073709551617}''))))
       = [(CharT, 0, 0), (Quant, 1, 1), (NoneT, 0, 0)]"
  unfolding Compile_def by code_simp

section \<open>Totality of the matcher\<close>

text \<open>
  C3. \<open>Match\<close> should return a boolean for every compiled pattern and every input. The
  pattern \<open>a{9223372036854775808}b\<close> compiles: the digits are accumulated in an \<open>int\<close>
  that wraps to \<open>-2^63\<close>, which passes the test \<open>val > MaxQuant\<close>. On the input \<open>a\<close> the
  loop \<open>for i >= min\<close> of \<open>matchQuant\<close> then counts down to \<open>-1\<close> and slices \<open>txt[-1:]\<close>:
  \<open>Match\<close> panics.
\<close>

theorem Match_panics_on_wrapped_bound:
  "\<not> isl (Compile ''a{9223372036854775808}b'')
   \<and> Match (projr (Compile ''a{9223372036854775808}b'')) ''a'' = Inl Panic"
  unfolding Compile_def by code_simp

text \<open>
  C4. On the empty input \<open>Match\<close> returns \<open>false\<close>, whatever the pattern: the test
  \<open>n == 0\<close> comes before the pattern is looked at.
\<close>

theorem Match_empty_input:
  "Match re [] = Inr False"
  by (simp add: Match_def)

section \<open>The top-level search\<close>

lemma Match_loop_True:
  "(Match_loop buf ns b = Inr True) =
     (\<exists>k<length b. match buf ns (drop k b) = Inr True
        \<and> (\<forall>j<k. match buf ns (drop j b) = Inr False))"
proof (induction b)
  case Nil
  show ?case by simp
next
  case (Cons c b1)
  show ?case
  proof (cases "match buf ns (c # b1)")
    case (Inl e)
    then show ?thesis by (auto simp: Ex_less_Suc2 All_less_Suc2)
  next
    case (Inr m)
    with Cons show ?thesis by (auto simp: Ex_less_Suc2 All_less_Suc2)
  qed
qed

lemma Match_loop_False:
  "(Match_loop buf ns b = Inr False) = (\<forall>k<length b. match buf ns (drop k b) = Inr False)"
proof (induction b)
  case Nil
  show ?case by simp
next
  case (Cons c b1)
  show ?case
  proof (cases "match buf ns (c # b1)")
    case (Inl e)
    then show ?thesis by (auto simp: All_less_Suc2)
  next
    case (Inr m)
    with Cons show ?thesis by (auto simp: All_less_Suc2)
  qed
qed

lemma Match_loop_first_success:
  "Match_loop buf ns b = first_success (map (\<lambda>k. match buf ns (drop k b)) [0..<length b])"
proof (induction b)
  case Nil
  show ?case by simp
next
  case (Cons c b1)
  have "map (\<lambda>k. match buf ns (drop k (c # b1))) [0..<length (c # b1)]
      = match buf ns (c # b1) # map (\<lambda>k. match buf ns (drop k b1)) [0..<length b1]"
    by (simp add: upt_conv_Cons map_Suc_upt [symmetric] del: upt_Suc)
  with Cons show ?case by (simp split: sum.splits)
qed

text \<open>
  C5, as stated, fails on the empty input: \<open>^\<close> compiles to the nodes \<open>Begin\<close>, \<open>None\<close>,
  and the rest of the pattern after the anchor (the node \<open>None\<close> alone) matches the empty
  text at offset 0, but \<open>Match\<close> returns \<open>false\<close> on the empty input.
\<close>

theorem Match_anchored_empty_input:
  "\<not> isl (Compile ''^'')
   \<and> map ntyp (take 2 (nodes (projr (Compile ''^'')))) = [Begin, NoneT]
   \<and> Match (projr (Compile ''^'')) [] = Inr False
   \<and> match (buffer (projr (Compile ''^''))) (tl (nodes (projr (Compile ''^'')))) [] = Inr True"
  unfolding Compile_def by code_simp

text \<open>
  C5, amended. If the first node is \<open>Begin\<close> and the input is not empty, \<open>Match\<close> is the
  one attempt \<open>match(nodes[1:], b)\<close>: the nodes after the anchor against the whole input.
  Otherwise \<open>Match\<close> returns \<open>true\<close> exactly when \<open>match\<close> returns \<open>true\<close> at some offset
  \<open>k\<close> below the length of the input after returning \<open>false\<close> at every offset below \<open>k\<close>,
  and \<open>false\<close> exactly when \<open>match\<close> returns \<open>false\<close> at every offset below the length.
\<close>

theorem Match_anchored_or_scan:
  assumes "nodes re = n0 # ns1"
  shows "(ntyp n0 = Begin \<and> b \<noteq> [] \<longrightarrow> Match re b = match (buffer re) ns1 b)
    \<and> (ntyp n0 \<noteq> Begin \<longrightarrow>
         ((Match re b = Inr True) =
            (\<exists>k<length b. match (buffer re) (nodes re) (drop k b) = Inr True
               \<and> (\<forall>j<k. match (buffer re) (nodes re) (drop j b) = Inr False)))
       \<and> ((Match re b = Inr False) =
            (\<forall>k<length b. match (buffer re) (nodes re) (drop k b) = Inr False)))"
proof (cases "b = []")
  case True
  with assms show ?thesis by (simp add: Match_def)
next
  case False
  with assms show ?thesis
    by (simp add: Match_def Match_loop_True Match_loop_False)
qed

theorem Match_anchored_or_scan_witness:
  "Match \<lparr>nodes = [zero_node\<lparr>ntyp := Begin\<rparr>, zero_node\<lparr>ntyp := CharT, ch := CHR ''a''\<rparr>, zero_node],
          buffer = []\<rparr> ''ab''
     = match [] [zero_node\<lparr>ntyp := CharT, ch := CHR ''a''\<rparr>, zero_node] ''ab''
   \<and> match [] [zero_node\<lparr>ntyp := CharT, ch := CHR ''a''\<rparr>, zero_node] ''ab'' = Inr True
   \<and> Match \<lparr>nodes = [zero_node\<lparr>ntyp := CharT, ch := CHR ''a''\<rparr>, zero_node], buffer = []\<rparr> ''ba''
     = Inr True
   \<and> match [] [zero_node\<lparr>ntyp := CharT, ch := CHR ''a''\<rparr>, zero_node] ''ba'' = Inr False
   \<and> match [] [zero_node\<lparr>ntyp := CharT, ch := CHR ''a''\<rparr>, zero_node] ''a'' = Inr True"
proof -
  let ?b = "zero_node\<lparr>ntyp := Begin\<rparr>"
  let ?ns = "[zero_node\<lparr>ntyp := CharT, ch := CHR ''a''\<rparr>, zero_node]"
  have 1: "match [] ?ns ''ab'' = Inr True" by code_simp
  have 2: "match [] ?ns ''ba'' = Inr False" by code_simp
  have 3: "match [] ?ns ''a'' = Inr True" by code_simp
  have a: "Match \<lparr>nodes = ?b # ?ns, buffer = []\<rparr> ''ab'' = match [] ?ns ''ab''"
    using Match_anchored_or_scan [of "\<lparr>nodes = ?b # ?ns, buffer = []\<rparr>" ?b ?ns "''ab''"]
    by (simp add: zero_node_def)
  have "\<exists>k<length ''ba''. match [] ?ns (drop k ''ba'') = Inr True
         \<and> (\<forall>j<k. match [] ?ns (drop j ''ba'') = Inr False)"
    using 2 3 by (intro exI [of _ 1]) simp
  with Match_anchored_or_scan [of "\<lparr>nodes = ?ns, buffer = []\<rparr>" "hd ?ns" "tl ?ns" "''ba''"]
  have b: "Match \<lparr>nodes = ?ns, buffer = []\<rparr> ''ba'' = Inr True"
    by (simp add: zero_node_def)
  from a b 1 2 3 show ?thesis by simp
qed

text \<open>
  C10. When the first node is not \<open>Begin\<close>, the result of \<open>Match\<close> on an input of length
  \<open>L\<close> is the first success among the attempts at the offsets \<open>0\<close> to \<open>L - 1\<close>, in this
  order: the empty suffix at offset \<open>L\<close> is not among them. The pattern \<open>$\<close> compiles to
  the nodes \<open>End\<close>, \<open>None\<close>, and \<open>Match\<close> returns \<open>false\<close> with it on every input.
\<close>

lemma compile_dollar:
  "compile ''$'' =
     Inr \<lparr>nodes = \<lparr>ntyp = End, ch = CHR 0x00, ccl = None, mn0 = 0, mn1 = 0\<rparr> # replicate 63 zero_node,
          buffer = replicate 128 (CHR 0x00)\<rparr>"
  by code_simp

lemma match_End_None:
  "ntyp n0 = End \<Longrightarrow> ntyp n1 = NoneT \<Longrightarrow> match buf (n0 # n1 # ns) s = Inr (s = [])"
  by (simp add: match.simps)

theorem Match_unanchored_offsets:
  assumes "nodes re = n0 # ns1" and "ntyp n0 \<noteq> Begin"
  shows "Match re b =
      first_success (map (\<lambda>k. match (buffer re) (nodes re) (drop k b)) [0..<length b])
   \<and> \<not> isl (Compile ''$'')
   \<and> map ntyp (take 2 (nodes (projr (Compile ''$'')))) = [End, NoneT]
   \<and> Match (projr (Compile ''$'')) b = Inr False"
proof -
  have 1: "Match re b =
      first_success (map (\<lambda>k. match (buffer re) (nodes re) (drop k b)) [0..<length b])"
    using assms by (cases "b = []") (auto simp: Match_def Match_loop_first_success)
  have r63: "replicate 63 zero_node = zero_node # replicate 62 zero_node"
    by (simp add: numeral_eq_Suc)
  have 2: "match buf (\<lparr>ntyp = End, ch = CHR 0x00, ccl = None, mn0 = 0, mn1 = 0\<rparr>
      # replicate 63 zero_node) s = Inr (s = [])" for buf s
    unfolding r63 by (rule match_End_None) (simp_all add: zero_node_def)
  have 3: "Match_loop buf (\<lparr>ntyp = End, ch = CHR 0x00, ccl = None, mn0 = 0, mn1 = 0\<rparr>
      # replicate 63 zero_node) s = Inr False" for buf s
    by (induction s) (simp_all add: 2)
  have 4: "Match (projr (Compile ''$'')) b = Inr False"
    by (simp add: Compile_def compile_dollar Match_def 3)
  have 5: "map ntyp (take 2 (nodes (projr (Compile ''$'')))) = [End, NoneT]"
    by (simp add: Compile_def compile_dollar r63 zero_node_def)
  from 1 4 5 show ?thesis by (simp add: Compile_def compile_dollar)
qed

theorem Match_unanchored_offsets_witness:
  "Match \<lparr>nodes = [zero_node\<lparr>ntyp := End\<rparr>, zero_node], buffer = []\<rparr> ''ab''
     = first_success [match [] [zero_node\<lparr>ntyp := End\<rparr>, zero_node] ''ab'',
                      match [] [zero_node\<lparr>ntyp := End\<rparr>, zero_node] ''b'']
   \<and> match [] [zero_node\<lparr>ntyp := End\<rparr>, zero_node] [] = Inr True
   \<and> Match \<lparr>nodes = [zero_node\<lparr>ntyp := End\<rparr>, zero_node], buffer = []\<rparr> ''ab'' = Inr False"
proof -
  let ?ns = "[zero_node\<lparr>ntyp := End\<rparr>, zero_node]"
  have 1: "match [] ?ns [] = Inr True" by code_simp
  have 2: "match [] ?ns ''ab'' = Inr False" by code_simp
  have 3: "match [] ?ns ''b'' = Inr False" by code_simp
  have "Match \<lparr>nodes = ?ns, buffer = []\<rparr> ''ab''
     = first_success [match [] ?ns ''ab'', match [] ?ns ''b'']"
    using Match_unanchored_offsets [of "\<lparr>nodes = ?ns, buffer = []\<rparr>" "hd ?ns" "tl ?ns" "''ab''"]
    by (simp add: zero_node_def)
  with 1 2 3 show ?thesis by simp
qed

section \<open>The greedy quantifier\<close>

lemma wrap64_id:
  "- 9223372036854775808 \<le> x \<Longrightarrow> x < 9223372036854775808 \<Longrightarrow> wrap64 x = x"
  by (simp add: wrap64_def)

lemma sub64_pos: "0 < c \<Longrightarrow> c < 9223372036854775808 \<Longrightarrow> sub64 c 1 = c - 1"
  by (simp add: sub64_def wrap64_id)

text \<open>
  The first loop of \<open>matchQuant\<close>, for a counter that is a non-negative \<open>int\<close>: it stops
  at the first byte that the atom does not match, at the end of the text, or when the
  counter reaches zero.
\<close>

lemma consume_count:
  assumes "consume buf (a # ns) s i cnt = Inr (i', cnt')"
    and "0 \<le> cnt" and "cnt < 9223372036854775808" and "i \<le> length s"
  shows "i \<le> i' \<and> i' \<le> length s \<and> cnt' = cnt - int (i' - i) \<and> 0 \<le> cnt'
    \<and> (\<forall>k. i \<le> k \<and> k < i' \<longrightarrow> matchOne buf a (s ! k) = Inr True)
    \<and> (cnt' = 0 \<or> i' = length s \<or> matchOne buf a (s ! i') = Inr False)"
  using assms
proof (induction buf "a # ns" s i cnt rule: consume.induct)
  case (1 buf s i cnt)
  show ?case
  proof (cases "cnt \<noteq> 0 \<and> i < length s")
    case False
    with "1.prems" show ?thesis by (auto simp: consume.simps)
  next
    case True
    show ?thesis
    proof (cases "matchOne buf a (s ! i) = Inr True")
      case m: True
      with "1.prems"(1) True
      have c: "consume buf (a # ns) s (i + 1) (sub64 cnt 1) = Inr (i', cnt')"
        by (subst (asm) consume.simps) simp
      have s: "sub64 cnt 1 = cnt - 1" using True "1.prems" by (simp add: sub64_pos)
      from True "1.prems" s
      have ih: "i + 1 \<le> i' \<and> i' \<le> length s \<and> cnt' = sub64 cnt 1 - int (i' - (i + 1))
        \<and> 0 \<le> cnt'
        \<and> (\<forall>k. i + 1 \<le> k \<and> k < i' \<longrightarrow> matchOne buf a (s ! k) = Inr True)
        \<and> (cnt' = 0 \<or> i' = length s \<or> matchOne buf a (s ! i') = Inr False)"
        by (intro "1.hyps" [OF True refl m _ c]) auto
      have "\<And>k. i \<le> k \<Longrightarrow> k < i' \<Longrightarrow> matchOne buf a (s ! k) = Inr True"
      proof -
        fix k assume "i \<le> k" "k < i'"
        then show "matchOne buf a (s ! k) = Inr True"
          using ih m by (cases "k = i") auto
      qed
      with ih s show ?thesis by auto
    next
      case False
      with "1.prems" True show ?thesis
        by (subst (asm) consume.simps) (auto split: sum.splits if_splits)
    qed
  qed
qed

text \<open>The second loop of \<open>matchQuant\<close>, for a non-negative \<open>min\<close>.\<close>

lemma matchQuant_loop_neg:
  "0 \<le> mn \<Longrightarrow> matchQuant_loop buf nn s mn (- 1) = Inr False"
  by (simp add: matchQuant_loop.simps)

lemma matchQuant_loop_step:
  "i \<le> length s \<Longrightarrow> matchQuant_loop buf nn s mn (int i) =
     (if mn \<le> int i then
        (case match buf nn (drop i s) of
           Inl e \<Rightarrow> Inl e
         | Inr m \<Rightarrow> if m then Inr True else matchQuant_loop buf nn s mn (int i - 1))
      else Inr False)"
  by (subst matchQuant_loop.simps) simp

lemma matchQuant_loop_0:
  "0 \<le> mn \<Longrightarrow> matchQuant_loop buf nn s mn 0 =
     (if mn = 0 then
        (case match buf nn s of
           Inl e \<Rightarrow> Inl e
         | Inr m \<Rightarrow> Inr m)
      else Inr False)"
  by (subst matchQuant_loop.simps) (auto simp: matchQuant_loop_neg split: sum.splits)

lemma matchQuant_loop_True:
  assumes "0 \<le> mn"
  shows "i \<le> length s \<Longrightarrow> (matchQuant_loop buf nn s mn (int i) = Inr True) =
     (\<exists>k\<le>i. mn \<le> int k \<and> match buf nn (drop k s) = Inr True
        \<and> (\<forall>j. k < j \<and> j \<le> i \<longrightarrow> match buf nn (drop j s) = Inr False))"
proof (induction i)
  case 0
  then show ?case
    using assms by (auto simp: matchQuant_loop_0 split: sum.splits)
next
  case (Suc i)
  then have il: "i \<le> length s" by simp
  have i: "int (Suc i) - 1 = int i" by simp
  note st = matchQuant_loop_step [OF Suc.prems, unfolded i]
  let ?M = "\<lambda>k. match buf nn (drop k s)"
  let ?R = "\<lambda>i. \<exists>k\<le>i. mn \<le> int k \<and> ?M k = Inr True
     \<and> (\<forall>j. k < j \<and> j \<le> i \<longrightarrow> ?M j = Inr False)"
  show ?case
  proof (cases "mn \<le> int (Suc i)")
    case False
    then have "\<not> ?R (Suc i)" by auto
    with False show ?thesis by (simp only: st if_False) simp
  next
    case True
    show ?thesis
    proof (cases "?M (Suc i)")
      case (Inl e)
      have "\<not> ?R (Suc i)"
      proof
        assume "?R (Suc i)"
        then obtain k where k: "k \<le> Suc i" "?M k = Inr True"
          "\<forall>j. k < j \<and> j \<le> Suc i \<longrightarrow> ?M j = Inr False" by blast
        show False
        proof (cases "k = Suc i")
          case True with k Inl show False by simp
        next
          case False with k have "?M (Suc i) = Inr False" by auto
          with Inl show False by simp
        qed
      qed
      with True Inl show ?thesis by (simp only: st) simp
    next
      case (Inr m)
      show ?thesis
      proof (cases m)
        case True
        with Inr \<open>mn \<le> int (Suc i)\<close> have "?R (Suc i)"
          by (intro exI [of _ "Suc i"]) auto
        with True Inr \<open>mn \<le> int (Suc i)\<close> show ?thesis by (simp only: st) simp
      next
        case False
        have "?R (Suc i) = ?R i"
        proof
          assume "?R (Suc i)"
          then obtain k where k: "k \<le> Suc i" "mn \<le> int k" "?M k = Inr True"
            "\<forall>j. k < j \<and> j \<le> Suc i \<longrightarrow> ?M j = Inr False" by blast
          with Inr False have "k \<noteq> Suc i" by auto
          with k have "k \<le> i" by simp
          with k show "?R i" by (intro exI [of _ k]) auto
        next
          assume "?R i"
          then obtain k where k: "k \<le> i" "mn \<le> int k" "?M k = Inr True"
            "\<forall>j. k < j \<and> j \<le> i \<longrightarrow> ?M j = Inr False" by blast
          have "\<forall>j. k < j \<and> j \<le> Suc i \<longrightarrow> ?M j = Inr False"
            using k(4) Inr False by (auto simp: le_Suc_eq)
          with k show "?R (Suc i)" by (intro exI [of _ k]) auto
        qed
        with False Inr \<open>mn \<le> int (Suc i)\<close> Suc.IH [OF il] show ?thesis
          by (simp only: st) simp
      qed
    qed
  qed
qed

lemma matchQuant_loop_False:
  assumes "0 \<le> mn"
  shows "i \<le> length s \<Longrightarrow> (matchQuant_loop buf nn s mn (int i) = Inr False) =
     (\<forall>k\<le>i. mn \<le> int k \<longrightarrow> match buf nn (drop k s) = Inr False)"
proof (induction i)
  case 0
  then show ?case
    using assms by (auto simp: matchQuant_loop_0 split: sum.splits)
next
  case (Suc i)
  then have il: "i \<le> length s" by simp
  have i: "int (Suc i) - 1 = int i" by simp
  note st = matchQuant_loop_step [OF Suc.prems, unfolded i]
  show ?case
  proof (cases "mn \<le> int (Suc i)")
    case False
    then have "\<forall>k\<le>Suc i. \<not> mn \<le> int k" by auto
    with False show ?thesis by (simp only: st if_False) simp
  next
    case True
    then show ?thesis
      using Suc.IH [OF il]
      by (simp only: st) (auto simp: le_Suc_eq split: sum.splits)
  qed
qed

text \<open>
  The routine on bounds in range. For \<open>0 \<le> min \<le> max\<close> (\<open>max\<close> an \<open>int\<close>), the nodes \<open>a\<close>
  (the atom), \<open>q\<close> (the quantifier) and \<open>rest\<close>, and a text on which the first loop ends
  with the count \<open>i\<close>: \<open>i\<close> is the number of leading bytes that the atom matches, cut at
  \<open>max\<close>; \<open>matchQuant\<close> returns \<open>true\<close> exactly when \<open>rest\<close> matches the text after some
  count \<open>k\<close> with \<open>min \<le> k \<le> i\<close> and has failed after every count above \<open>k\<close> up to \<open>i\<close>; it
  returns \<open>false\<close> exactly when \<open>rest\<close> fails after every count from \<open>min\<close> to \<open>i\<close>.
\<close>

theorem matchQuant_greedy:
  assumes "0 \<le> mn" and "mn \<le> mx" and "mx < 9223372036854775808"
    and "consume buf (a # q # rest) s 0 mx = Inr (i, mx')"
  shows "i \<le> length s \<and> int i \<le> mx
    \<and> (\<forall>k<i. matchOne buf a (s ! k) = Inr True)
    \<and> (int i = mx \<or> i = length s \<or> matchOne buf a (s ! i) = Inr False)
    \<and> ((matchQuant buf (a # q # rest) s mn mx = Inr True) =
          (\<exists>k\<le>i. mn \<le> int k \<and> match buf rest (drop k s) = Inr True
             \<and> (\<forall>j. k < j \<and> j \<le> i \<longrightarrow> match buf rest (drop j s) = Inr False)))
    \<and> ((matchQuant buf (a # q # rest) s mn mx = Inr False) =
          (\<forall>k\<le>i. mn \<le> int k \<longrightarrow> match buf rest (drop k s) = Inr False))"
proof -
  from assms have mx0: "0 \<le> mx" by simp
  from consume_count [OF assms(4) mx0 assms(3)]
  have c: "i \<le> length s" "mx' = mx - int i" "0 \<le> mx'"
    "\<forall>k. k < i \<longrightarrow> matchOne buf a (s ! k) = Inr True"
    "mx' = 0 \<or> i = length s \<or> matchOne buf a (s ! i) = Inr False"
    by auto
  have q: "matchQuant buf (a # q # rest) s mn mx = matchQuant_loop buf rest s mn (int i)"
    by (simp add: matchQuant.simps assms(4))
  from c have 1: "int i \<le> mx" by simp
  from c have 2: "int i = mx \<or> i = length s \<or> matchOne buf a (s ! i) = Inr False" by auto
  show ?thesis
    unfolding q matchQuant_loop_True [OF assms(1) c(1)] matchQuant_loop_False [OF assms(1) c(1)]
    using c(1) c(4) 1 2 by simp
qed

theorem matchQuant_greedy_witness:
  "consume [] [zero_node\<lparr>ntyp := CharT, ch := CHR ''a''\<rparr>,
       zero_node\<lparr>ntyp := Quant, mn0 := 1, mn1 := 5\<rparr>,
       zero_node\<lparr>ntyp := CharT, ch := CHR ''b''\<rparr>, zero_node] ''aab'' 0 5 = Inr (2, 3)
   \<and> matchQuant [] [zero_node\<lparr>ntyp := CharT, ch := CHR ''a''\<rparr>,
       zero_node\<lparr>ntyp := Quant, mn0 := 1, mn1 := 5\<rparr>,
       zero_node\<lparr>ntyp := CharT, ch := CHR ''b''\<rparr>, zero_node] ''aab'' 1 5 = Inr True
   \<and> match [] [zero_node\<lparr>ntyp := CharT, ch := CHR ''b''\<rparr>, zero_node] (drop 2 ''aab'') = Inr True"
proof -
  let ?a = "zero_node\<lparr>ntyp := CharT, ch := CHR ''a''\<rparr>"
  let ?q = "zero_node\<lparr>ntyp := Quant, mn0 := 1, mn1 := 5\<rparr>"
  let ?rest = "[zero_node\<lparr>ntyp := CharT, ch := CHR ''b''\<rparr>, zero_node]"
  have c: "consume [] (?a # ?q # ?rest) ''aab'' 0 5 = Inr (2, 3)" by code_simp
  have m: "match [] ?rest (drop 2 ''aab'') = Inr True" by code_simp
  have "(matchQuant [] (?a # ?q # ?rest) ''aab'' 1 5 = Inr True) =
          (\<exists>k\<le>2. 1 \<le> int k \<and> match [] ?rest (drop k ''aab'') = Inr True
             \<and> (\<forall>j. k < j \<and> j \<le> 2 \<longrightarrow> match [] ?rest (drop j ''aab'') = Inr False))"
    using matchQuant_greedy [of 1 5 "[]" ?a ?q ?rest "''aab''" 2 3, OF _ _ _ c] by simp
  moreover have "\<exists>k\<le>2. 1 \<le> int k \<and> match [] ?rest (drop k ''aab'') = Inr True
             \<and> (\<forall>j. k < j \<and> j \<le> 2 \<longrightarrow> match [] ?rest (drop j ''aab'') = Inr False)"
    using m by (intro exI [of _ 2]) auto
  ultimately show ?thesis using c m by simp
qed

text \<open>
  C6. For bounds \<open>min \<le> max\<close> the greedy routine should try the counts from \<open>i\<close> down to
  \<open>min\<close> and return \<open>false\<close> when none succeeds. The pattern \<open>a{18446744073709551615,1}b\<close>
  compiles to the atom \<open>a\<close>, the quantifier with the bounds \<open>-1 \<le> 1\<close> (the digits of the
  minimum wrap in the \<open>int\<close> that accumulates them) and the rest \<open>b\<close>. On the text \<open>a\<close> the
  rest fails after the counts \<open>1\<close> and \<open>0\<close>, and \<open>matchQuant\<close> does not return \<open>false\<close>: its
  loop \<open>for i >= min\<close> goes on to the count \<open>-1\<close> and panics on \<open>txt[-1:]\<close>, and so does
  \<open>Match\<close>.
\<close>

theorem matchQuant_panics_on_wrapped_min:
  "\<not> isl (Compile ''a{18446744073709551615,1}b'')
   \<and> take 4 (nodes (projr (Compile ''a{18446744073709551615,1}b''))) =
       [zero_node\<lparr>ntyp := CharT, ch := CHR ''a''\<rparr>,
        zero_node\<lparr>ntyp := Quant, mn0 := - 1, mn1 := 1\<rparr>,
        zero_node\<lparr>ntyp := CharT, ch := CHR ''b''\<rparr>,
        zero_node]
   \<and> match (buffer (projr (Compile ''a{18446744073709551615,1}b'')))
        (drop 2 (nodes (projr (Compile ''a{18446744073709551615,1}b'')))) (drop 1 ''a'')
       = Inr False
   \<and> match (buffer (projr (Compile ''a{18446744073709551615,1}b'')))
        (drop 2 (nodes (projr (Compile ''a{18446744073709551615,1}b'')))) (drop 0 ''a'')
       = Inr False
   \<and> matchQuant (buffer (projr (Compile ''a{18446744073709551615,1}b'')))
        (nodes (projr (Compile ''a{18446744073709551615,1}b''))) ''a'' (- 1) 1 = Inl Panic
   \<and> Match (projr (Compile ''a{18446744073709551615,1}b'')) ''a'' = Inl Panic"
  unfolding Compile_def by code_simp

section \<open>Prepending an optional quantifier\<close>

lemma not_isl_obtain: "\<not> isl r \<Longrightarrow> \<exists>v. r = Inr v"
  by (cases r) simp_all


lemma matchQuant_loop_total:
  assumes "0 \<le> mn"
  shows "i \<le> length s \<Longrightarrow> \<forall>k\<le>i. \<not> isl (match buf nn (drop k s)) \<Longrightarrow>
     matchQuant_loop buf nn s mn (int i) =
       Inr (\<exists>k\<le>i. mn \<le> int k \<and> match buf nn (drop k s) = Inr True)"
proof (induction i)
  case 0
  then have "\<not> isl (match buf nn s)" by simp
  from not_isl_obtain [OF this] obtain m where "match buf nn s = Inr m" by blast
  with assms show ?case by (auto simp: matchQuant_loop_0)
next
  case (Suc i)
  then have il: "i \<le> length s" and t: "\<forall>k\<le>i. \<not> isl (match buf nn (drop k s))" by simp_all
  have i: "int (Suc i) - 1 = int i" by simp
  note st = matchQuant_loop_step [OF Suc.prems(1), unfolded i]
  from Suc.prems have "\<not> isl (match buf nn (drop (Suc i) s))" by blast
  from not_isl_obtain [OF this] obtain m where m: "match buf nn (drop (Suc i) s) = Inr m"
    by blast
  show ?case
  proof (cases "mn \<le> int (Suc i)")
    case False
    then have "\<not> (\<exists>k\<le>Suc i. mn \<le> int k \<and> match buf nn (drop k s) = Inr True)" by auto
    with False show ?thesis by (simp only: st if_False)
  next
    case True
    show ?thesis
    proof (cases m)
      case mt: True
      with m True have "\<exists>k\<le>Suc i. mn \<le> int k \<and> match buf nn (drop k s) = Inr True"
        by (intro exI [of _ "Suc i"]) simp
      with mt m True show ?thesis by (simp only: st) simp
    next
      case False
      have "(\<exists>k\<le>Suc i. mn \<le> int k \<and> match buf nn (drop k s) = Inr True)
          = (\<exists>k\<le>i. mn \<le> int k \<and> match buf nn (drop k s) = Inr True)"
        using m False by (auto simp: le_Suc_eq)
      with False m True Suc.IH [OF il t] show ?thesis by (simp only: st) simp
    qed
  qed
qed

lemma Match_loop_total:
  "\<forall>k<length b. \<not> isl (match buf ns (drop k b)) \<Longrightarrow>
     Match_loop buf ns b = Inr (\<exists>k<length b. match buf ns (drop k b) = Inr True)"
proof (induction b)
  case Nil
  show ?case by simp
next
  case (Cons c b1)
  from Cons.prems have "\<not> isl (match buf ns (drop 0 (c # b1)))" by blast
  then have "\<not> isl (match buf ns (c # b1))" by simp
  from not_isl_obtain [OF this] obtain m where m: "match buf ns (c # b1) = Inr m" by blast
  from Cons.prems have "\<forall>k<length b1. \<not> isl (match buf ns (drop k b1))" by auto
  from Cons.IH [OF this] m show ?case by (auto simp: Ex_less_Suc2)
qed


lemma matchQuant_consumed:
  "consume buf (a # q # ns) s 0 mx = Inr (i, mx') \<Longrightarrow>
     matchQuant buf (a # q # ns) s mn mx = matchQuant_loop buf ns s mn (int i)"
  by (subst matchQuant.simps) simp








section \<open>Greedy and lazy quantifiers\<close>

lemma run_Nil [simp]: "run buf a [] = 0"
  by (simp add: run_def)

lemma run_Cons:
  "run buf a (c # s) = (if matchOne buf a c = Inr True then Suc (run buf a s) else 0)"
  by (simp add: run_def)

lemma run_le: "run buf a s \<le> length s"
  by (simp add: run_def length_takeWhile_le)

lemma run_drop: "m \<le> run buf a s \<Longrightarrow> run buf a (drop m s) = run buf a s - m"
proof (induction s arbitrary: m)
  case Nil
  then show ?case by simp
next
  case (Cons c s)
  then show ?case by (cases m) (auto simp: run_Cons split: if_splits)
qed

lemma consume_run:
  assumes "\<forall>c. \<not> isl (matchOne buf a c)"
    and "0 \<le> cnt" and "cnt < 9223372036854775808" and "i \<le> length s"
  shows "consume buf (a # ns) s i cnt
     = Inr (i + min (nat cnt) (run buf a (drop i s)),
            cnt - int (min (nat cnt) (run buf a (drop i s))))"
  using assms
proof (induction buf "a # ns" s i cnt rule: consume.induct)
  case (1 buf s i cnt)
  show ?case
  proof (cases "cnt \<noteq> 0 \<and> i < length s")
    case False
    with "1.prems" show ?thesis by (subst consume.simps) auto
  next
    case True
    then have d: "drop i s = s ! i # drop (Suc i) s" by (simp add: Cons_nth_drop_Suc)
    from "1.prems" have "\<not> isl (matchOne buf a (s ! i))" by blast
    from not_isl_obtain [OF this] obtain m where m: "matchOne buf a (s ! i) = Inr m" by blast
    show ?thesis
    proof (cases m)
      case t: True
      have s: "sub64 cnt 1 = cnt - 1" using True "1.prems" by (simp add: sub64_pos)
      from True "1.prems" s t m
      have ih: "consume buf (a # ns) s (i + 1) (sub64 cnt 1)
         = Inr (i + 1 + min (nat (sub64 cnt 1)) (run buf a (drop (i + 1) s)),
                sub64 cnt 1 - int (min (nat (sub64 cnt 1)) (run buf a (drop (i + 1) s))))"
        by (intro "1.hyps" [OF True refl]) auto
      have pos: "nat cnt = Suc (nat (cnt - 1))" using True "1.prems" by arith
      have "min (nat cnt) (run buf a (drop i s))
          = Suc (min (nat (cnt - 1)) (run buf a (drop (Suc i) s)))"
        unfolding pos using t m by (simp add: d run_Cons)
      with ih s True t m show ?thesis
        by (subst consume.simps) simp
    next
      case False
      with True m show ?thesis by (subst consume.simps) (simp add: d run_Cons)
    qed
  qed
qed


lemma add64_id:
  "- 9223372036854775808 \<le> a + b \<Longrightarrow> a + b < 9223372036854775808 \<Longrightarrow> add64 a b = a + b"
  by (simp add: add64_def wrap64_id)

lemma sub64_id:
  "- 9223372036854775808 \<le> a - b \<Longrightarrow> a - b < 9223372036854775808 \<Longrightarrow> sub64 a b = a - b"
  by (simp add: sub64_def wrap64_id)

lemma matchQuant_total_run:
  assumes "\<forall>c. \<not> isl (matchOne buf a c)"
    and "0 \<le> mn" and "0 \<le> mx" and "mx < 9223372036854775808"
    and "\<forall>k\<le>length s. \<not> isl (match buf nn (drop k s))"
  shows "matchQuant buf (a # q # nn) s mn mx
     = Inr (\<exists>k. mn \<le> int k \<and> k \<le> min (nat mx) (run buf a s)
          \<and> match buf nn (drop k s) = Inr True)"
proof -
  let ?i = "min (nat mx) (run buf a s)"
  from consume_run [OF assms(1,3,4), of 0 s "q # nn"]
  have c: "consume buf (a # q # nn) s 0 mx = Inr (?i, mx - int ?i)" by simp
  have il: "?i \<le> length s" using run_le [of buf a s] by simp
  have "\<forall>k\<le>?i. \<not> isl (match buf nn (drop k s))"
  proof (intro allI impI)
    fix k assume "k \<le> ?i"
    from this il have "k \<le> length s" by (rule order_trans)
    with assms(5) show "\<not> isl (match buf nn (drop k s))" by blast
  qed
  from matchQuant_loop_total [OF assms(2) il this]
  have "matchQuant_loop buf nn s mn (int ?i)
      = Inr (\<exists>k\<le>?i. mn \<le> int k \<and> match buf nn (drop k s) = Inr True)" .
  moreover have "(\<exists>k\<le>?i. mn \<le> int k \<and> match buf nn (drop k s) = Inr True)
      = (\<exists>k. mn \<le> int k \<and> k \<le> ?i \<and> match buf nn (drop k s) = Inr True)" by blast
  ultimately show ?thesis by (simp only: matchQuant_consumed [OF c])
qed

lemma matchLQuant_loop_total_run:
  assumes "\<forall>c. \<not> isl (matchOne buf a c)"
  shows "1 \<le> c \<Longrightarrow> c < 9223372036854775808 \<Longrightarrow>
     \<forall>k\<le>length s. \<not> isl (match buf nn (drop k s)) \<Longrightarrow>
     matchLQuant_loop buf a nn s c
       = Inr (\<exists>k. int k < c \<and> k \<le> run buf a s \<and> match buf nn (drop k s) = Inr True)"
proof (induction s arbitrary: c)
  case Nil
  then have "\<not> isl (match buf nn [])" by simp
  from not_isl_obtain [OF this] obtain m where m: "match buf nn [] = Inr m" by blast
  with Nil.prems show ?case
    by (subst matchLQuant_loop.simps) (auto simp: Let_def)
next
  case (Cons x s)
  from Cons.prems(3) have "\<not> isl (match buf nn (drop 0 (x # s)))" by blast
  then have "\<not> isl (match buf nn (x # s))" by simp
  from not_isl_obtain [OF this] obtain m where m: "match buf nn (x # s) = Inr m" by blast
  from assms have "\<not> isl (matchOne buf a x)" by blast
  from not_isl_obtain [OF this] obtain m1 where m1: "matchOne buf a x = Inr m1" by blast
  have s1: "sub64 c 1 = c - 1" using Cons.prems by (simp add: sub64_pos)
  let ?R = "\<lambda>s c. \<exists>k. int k < c \<and> k \<le> run buf a s \<and> match buf nn (drop k s) = Inr True"
  show ?case
  proof (cases m)
    case True
    with m Cons.prems have "?R (x # s) c" by (intro exI [of _ 0]) simp
    with True m show ?thesis by (subst matchLQuant_loop.simps) simp
  next
    case mf: False
    show ?thesis
    proof (cases "c - 1 = 0 \<or> \<not> m1")
      case True
      have "\<not> ?R (x # s) c"
      proof
        assume "?R (x # s) c"
        then obtain k where k: "int k < c" "k \<le> run buf a (x # s)"
          "match buf nn (drop k (x # s)) = Inr True" by blast
        from True k(1,2) m1 have "k = 0" by (auto simp: run_Cons)
        with k(3) m mf show False by simp
      qed
      with True m mf m1 s1 show ?thesis
        by (subst matchLQuant_loop.simps) (auto simp: Let_def)
    next
      case False
      then have c1: "1 \<le> c - 1" "c - 1 < 9223372036854775808" and mt: "m1"
        using Cons.prems by auto
      from Cons.prems(3) have np: "\<forall>k\<le>length s. \<not> isl (match buf nn (drop k s))" by auto
      note ih = Cons.IH [OF c1 np]
      have "?R (x # s) c = ?R s (c - 1)"
      proof
        assume "?R (x # s) c"
        then obtain k where k: "int k < c" "k \<le> run buf a (x # s)"
          "match buf nn (drop k (x # s)) = Inr True" by blast
        with m mf obtain k' where k': "k = Suc k'" by (cases k) auto
        with k m1 mt show "?R s (c - 1)"
          by (intro exI [of _ k']) (auto simp: run_Cons)
      next
        assume "?R s (c - 1)"
        then obtain k where k: "int k < c - 1" "k \<le> run buf a s"
          "match buf nn (drop k s) = Inr True" by blast
        with m1 mt show "?R (x # s) c"
          by (intro exI [of _ "Suc k"]) (auto simp: run_Cons)
      qed
      with ih False m mf m1 s1 show ?thesis
        by (subst matchLQuant_loop.simps) (simp add: Let_def)
    qed
  qed
qed

lemma matchLQuant_total_run:
  assumes "\<forall>c. \<not> isl (matchOne buf a c)"
    and "0 \<le> mn" and "mn \<le> mx" and "mx < 4611686018427387904"
    and "\<forall>k\<le>length s. \<not> isl (match buf nn (drop k s))"
  shows "matchLQuant buf (a # q # nn) s mn mx
     = Inr (\<exists>k. mn \<le> int k \<and> k \<le> min (nat mx) (run buf a s)
          \<and> match buf nn (drop k s) = Inr True)"
proof -
  let ?i = "min (nat mn) (run buf a s)"
  let ?P = "\<exists>k. mn \<le> int k \<and> k \<le> min (nat mx) (run buf a s)
          \<and> match buf nn (drop k s) = Inr True"
  have mnr: "mn < 9223372036854775808" using assms(3,4) by simp
  from consume_run [OF assms(1,2) mnr, of 0 s "q # nn"]
  have c: "consume buf (a # q # nn) s 0 mn = Inr (?i, mn - int ?i)" by simp
  have mx1: "add64 (sub64 mx mn) 1 = mx - mn + 1"
    using assms(2,3,4) by (simp add: sub64_id add64_id)
  show ?thesis
  proof (cases "mn - int ?i = 0")
    case False
    then have "run buf a s < nat mn" using assms(2) by (simp add: min_def split: if_splits)
    then have "\<not> ?P" using assms(2) by auto
    with False c show ?thesis
      by (subst matchLQuant.simps) (simp add: Let_def)
  next
    case True
    then have i: "?i = nat mn" and le: "nat mn \<le> run buf a s"
      using assms(2) by (auto simp: min_def split: if_splits)
    have np: "\<forall>k\<le>length (drop (nat mn) s). \<not> isl (match buf nn (drop k (drop (nat mn) s)))"
    proof (intro allI impI)
      fix k assume "k \<le> length (drop (nat mn) s)"
      with le run_le [of buf a s] have "k + nat mn \<le> length s" by simp
      with assms(5) have "\<not> isl (match buf nn (drop (k + nat mn) s))" by blast
      then show "\<not> isl (match buf nn (drop k (drop (nat mn) s)))" by simp
    qed
    have c1: "1 \<le> mx - mn + 1" "mx - mn + 1 < 9223372036854775808"
      using assms(2,3,4) by simp_all
    from matchLQuant_loop_total_run [OF assms(1) c1 np]
    have l: "matchLQuant_loop buf a nn (drop (nat mn) s) (mx - mn + 1)
      = Inr (\<exists>k. int k < mx - mn + 1 \<and> k \<le> run buf a (drop (nat mn) s)
           \<and> match buf nn (drop k (drop (nat mn) s)) = Inr True)" .
    have "(\<exists>k. int k < mx - mn + 1 \<and> k \<le> run buf a (drop (nat mn) s)
           \<and> match buf nn (drop k (drop (nat mn) s)) = Inr True) = ?P"
    proof
      assume "\<exists>k. int k < mx - mn + 1 \<and> k \<le> run buf a (drop (nat mn) s)
           \<and> match buf nn (drop k (drop (nat mn) s)) = Inr True"
      then obtain k where k: "int k < mx - mn + 1" "k \<le> run buf a (drop (nat mn) s)"
        "match buf nn (drop k (drop (nat mn) s)) = Inr True" by blast
      from k(2) le have "k + nat mn \<le> run buf a s" by (simp add: run_drop)
      with k(1,3) assms(2) show ?P
        by (intro exI [of _ "k + nat mn"]) auto
    next
      assume ?P
      then obtain k where k: "mn \<le> int k" "k \<le> min (nat mx) (run buf a s)"
        "match buf nn (drop k s) = Inr True" by blast
      from k(1) assms(2) have ge: "nat mn \<le> k" by simp
      then have e: "k - nat mn + nat mn = k" by simp
      from k(2) le ge have "k - nat mn \<le> run buf a (drop (nat mn) s)"
        by (simp add: run_drop diff_le_mono)
      moreover from k(2) ge assms(2,3) have "int (k - nat mn) < mx - mn + 1" by arith
      moreover from k(3) e have "match buf nn (drop (k - nat mn) (drop (nat mn) s)) = Inr True"
        by simp
      ultimately show "\<exists>k. int k < mx - mn + 1 \<and> k \<le> run buf a (drop (nat mn) s)
           \<and> match buf nn (drop k (drop (nat mn) s)) = Inr True" by blast
    qed
    with l True c i mx1 show ?thesis
      by (subst matchLQuant.simps) (simp add: Let_def)
  qed
qed


lemma matchOne_lazy_form: "matchOne buf (lazy_form n) c = matchOne buf n c"
  by (cases "ntyp n") (simp_all add: matchOne_def lazy_form_def lazy_type_def)

lemma run_lazy_form: "run buf (lazy_form n) s = run buf n s"
  by (simp add: run_def matchOne_lazy_form)

lemma quantifier_agree:
  assumes "\<forall>c. \<not> isl (matchOne buf a c)"
    and "0 \<le> mn" and "mn \<le> mx" and "mx < 4611686018427387904"
    and "\<forall>t. \<not> isl (match buf nn t)"
    and "\<forall>t. match buf nn' t = match buf nn t"
  shows "matchLQuant buf (lazy_form a # q' # nn') s mn mx = matchQuant buf (a # q # nn) s mn mx"
    and "matchLQuant buf (lazy_form a # q' # nn') s mn mx = matchLQuant buf (a # q # nn) s mn mx"
proof -
  have a': "\<forall>c. \<not> isl (matchOne buf (lazy_form a) c)"
    using assms(1) by (simp add: matchOne_lazy_form)
  have np: "\<forall>k\<le>length s. \<not> isl (match buf nn (drop k s))" using assms(5) by simp
  have np': "\<forall>k\<le>length s. \<not> isl (match buf nn' (drop k s))" using assms(5,6) by simp
  have mx: "0 \<le> mx" "mx < 9223372036854775808" using assms(2,3,4) by simp_all
  note l' = matchLQuant_total_run [OF a' assms(2,3,4) np', of q']
  note l = matchLQuant_total_run [OF assms(1,2,3,4) np, of q]
  note g = matchQuant_total_run [OF assms(1,2) mx np, of q]
  show "matchLQuant buf (lazy_form a # q' # nn') s mn mx = matchQuant buf (a # q # nn) s mn mx"
    unfolding l' g by (simp add: run_lazy_form assms(6))
  show "matchLQuant buf (lazy_form a # q' # nn') s mn mx = matchLQuant buf (a # q # nn) s mn mx"
    unfolding l' l by (simp add: run_lazy_form assms(6))
qed

lemma match_unfold:
  "match buf (n0 # n1 # nn) s =
     (if ntyp n0 = NoneT then Inr True
      else if ntyp n0 = End \<and> ntyp n1 = NoneT then Inr (length s = 0)
      else if ntyp n1 = QMark then matchQuant buf (n0 # n1 # nn) s 0 1
      else if ntyp n1 = LQMark then matchLQuant buf (n0 # n1 # nn) s 0 1
      else if ntyp n1 = Quant then matchQuant buf (n0 # n1 # nn) s (mn0 n1) (mn1 n1)
      else if ntyp n1 = LQuant then matchLQuant buf (n0 # n1 # nn) s (mn0 n1) (mn1 n1)
      else if ntyp n1 = Star then matchQuant buf (n0 # n1 # nn) s 0 MaxPlus
      else if ntyp n1 = LStar then matchLQuant buf (n0 # n1 # nn) s 0 MaxPlus
      else if ntyp n1 = PlusT then matchQuant buf (n0 # n1 # nn) s 1 MaxPlus
      else if ntyp n1 = LPlus then matchLQuant buf (n0 # n1 # nn) s 1 MaxPlus
      else
        (case s of
           [] \<Rightarrow> Inr False
         | c # s1 \<Rightarrow>
             (case matchOne buf n0 c of
                Inl e \<Rightarrow> Inl e
              | Inr m \<Rightarrow> if m then match buf (n1 # nn) s1 else Inr False)))"
  by (subst match.simps) simp

lemma match_single: "match buf [n0] s = (if ntyp n0 = NoneT then Inr True else Inl Panic)"
  by (subst match.simps) simp

lemma match_Nil: "match buf [] s = Inl Panic"
  by (subst match.simps) simp

lemma lazy_type_simps:
  "(lazy_type t = NoneT) = (t = NoneT)" "(lazy_type t = End) = (t = End)"
  "(lazy_type t = Begin) = (t = Begin)"
  "lazy_type t \<noteq> QMark" "lazy_type t \<noteq> Quant" "lazy_type t \<noteq> Star" "lazy_type t \<noteq> PlusT"
  "(lazy_type t = LQMark) = (t = QMark \<or> t = LQMark)"
  "(lazy_type t = LQuant) = (t = Quant \<or> t = LQuant)"
  "(lazy_type t = LStar) = (t = Star \<or> t = LStar)"
  "(lazy_type t = LPlus) = (t = PlusT \<or> t = LPlus)"
  by (auto simp: lazy_type_def)

lemma match_lazy_form:
  assumes "\<forall>n\<in>set ns. \<forall>c. \<not> isl (matchOne buf n c)"
    and "\<forall>n\<in>set ns. ntyp n = Quant \<or> ntyp n = LQuant \<longrightarrow>
           0 \<le> mn0 n \<and> mn0 n \<le> mn1 n \<and> mn1 n < 4611686018427387904"
    and "\<forall>k<length ns. \<forall>t. \<not> isl (match buf (drop k ns) t)"
  shows "match buf (map lazy_form ns) s = match buf ns s"
  using assms
proof (induction ns arbitrary: s rule: length_induct)
  case (1 ns)
  show ?case
  proof (cases ns)
    case Nil
    then show ?thesis by simp
  next
    case (Cons n0 ns1)
    note ns = Cons
    show ?thesis
    proof (cases ns1)
      case Nil
      with ns show ?thesis by (simp add: match_single lazy_form_def lazy_type_simps)
    next
      case (Cons n1 nn)
      note ns1 = Cons
      have tot0: "\<forall>c. \<not> isl (matchOne buf n0 c)" using "1.prems"(1) ns by simp
      have sub1: "match buf (map lazy_form ns1) t = match buf ns1 t" for t
      proof -
        have "length ns1 < length ns" using ns by simp
        moreover have "\<forall>n\<in>set ns1. \<forall>c. \<not> isl (matchOne buf n c)" using "1.prems"(1) ns by simp
        moreover have "\<forall>n\<in>set ns1. ntyp n = Quant \<or> ntyp n = LQuant \<longrightarrow>
           0 \<le> mn0 n \<and> mn0 n \<le> mn1 n \<and> mn1 n < 4611686018427387904"
          using "1.prems"(2) ns by simp
        moreover have "\<forall>k<length ns1. \<forall>t. \<not> isl (match buf (drop k ns1) t)"
        proof (intro allI impI)
          fix k t assume "k < length ns1"
          then have "Suc k < length ns" using ns by simp
          with "1.prems"(3) have "\<not> isl (match buf (drop (Suc k) ns) t)" by blast
          then show "\<not> isl (match buf (drop k ns1) t)" using ns by simp
        qed
        ultimately show ?thesis using "1.IH" by blast
      qed
      have f: "mn0 (lazy_form n1) = mn0 n1" "mn1 (lazy_form n1) = mn1 n1"
        "ntyp (lazy_form n1) = lazy_type (ntyp n1)" "ntyp (lazy_form n0) = lazy_type (ntyp n0)"
        by (simp_all add: lazy_form_def)
      show ?thesis
      proof (cases "is_quant (ntyp n1)")
        case False
        then show ?thesis
          unfolding ns ns1 list.map match_unfold
          using sub1 [unfolded ns1 list.map]
          by (simp add: is_quant_def f lazy_type_simps matchOne_lazy_form
                split: list.splits sum.splits)
      next
        case q: True
        have nn_ne: "nn \<noteq> []"
        proof
          assume "nn = []"
          with ns ns1 "1.prems"(3) have "\<not> isl (match buf [n1] [])"
            by (auto dest!: spec [of _ 1])
          with q show False by (auto simp: match_single is_quant_def)
        qed
        have np: "\<forall>t. \<not> isl (match buf nn t)"
        proof
          fix t
          from nn_ne ns ns1 have "2 < length ns" by (cases nn) simp_all
          with "1.prems"(3) have "\<not> isl (match buf (drop 2 ns) t)" by blast
          then show "\<not> isl (match buf nn t)" using ns ns1 by simp
        qed
        have sub2: "\<forall>t. match buf (map lazy_form nn) t = match buf nn t"
        proof
          fix t
          have "length nn < length ns" using ns ns1 by simp
          moreover have "\<forall>n\<in>set nn. \<forall>c. \<not> isl (matchOne buf n c)"
            using "1.prems"(1) ns ns1 by simp
          moreover have "\<forall>n\<in>set nn. ntyp n = Quant \<or> ntyp n = LQuant \<longrightarrow>
             0 \<le> mn0 n \<and> mn0 n \<le> mn1 n \<and> mn1 n < 4611686018427387904"
            using "1.prems"(2) ns ns1 by simp
          moreover have "\<forall>k<length nn. \<forall>t. \<not> isl (match buf (drop k nn) t)"
          proof (intro allI impI)
            fix k t assume "k < length nn"
            then have "Suc (Suc k) < length ns" using ns ns1 by simp
            with "1.prems"(3) have "\<not> isl (match buf (drop (Suc (Suc k)) ns) t)" by blast
            then show "\<not> isl (match buf (drop k nn) t)" using ns ns1 by simp
          qed
          ultimately show "match buf (map lazy_form nn) t = match buf nn t"
            using "1.IH" by blast
        qed
        have b: "ntyp n1 = Quant \<or> ntyp n1 = LQuant \<Longrightarrow>
            0 \<le> mn0 n1 \<and> mn0 n1 \<le> mn1 n1 \<and> mn1 n1 < 4611686018427387904"
          using "1.prems"(2) ns ns1 by auto
        note qa = quantifier_agree [OF tot0 _ _ _ np sub2, of _ _ "lazy_form n1" s n1]
        from q consider "ntyp n1 = QMark" | "ntyp n1 = LQMark" | "ntyp n1 = Quant"
          | "ntyp n1 = LQuant" | "ntyp n1 = Star" | "ntyp n1 = LStar" | "ntyp n1 = PlusT"
          | "ntyp n1 = LPlus"
          by (auto simp: is_quant_def)
        then show ?thesis
        proof cases
          case 1
          then show ?thesis unfolding ns ns1 list.map match_unfold
            using qa(1) [of 0 1] by (simp add: f lazy_type_simps)
        next
          case 2
          then show ?thesis unfolding ns ns1 list.map match_unfold
            using qa(2) [of 0 1] by (simp add: f lazy_type_simps)
        next
          case 3
          then show ?thesis unfolding ns ns1 list.map match_unfold
            using qa(1) [of "mn0 n1" "mn1 n1"] b by (simp add: f lazy_type_simps)
        next
          case 4
          then show ?thesis unfolding ns ns1 list.map match_unfold
            using qa(2) [of "mn0 n1" "mn1 n1"] b by (simp add: f lazy_type_simps)
        next
          case 5
          then show ?thesis unfolding ns ns1 list.map match_unfold
            using qa(1) [of 0 MaxPlus] by (simp add: f lazy_type_simps MaxPlus_def)
        next
          case 6
          then show ?thesis unfolding ns ns1 list.map match_unfold
            using qa(2) [of 0 MaxPlus] by (simp add: f lazy_type_simps MaxPlus_def)
        next
          case 7
          then show ?thesis unfolding ns ns1 list.map match_unfold
            using qa(1) [of 1 MaxPlus] by (simp add: f lazy_type_simps MaxPlus_def)
        next
          case 8
          then show ?thesis unfolding ns ns1 list.map match_unfold
            using qa(2) [of 1 MaxPlus] by (simp add: f lazy_type_simps MaxPlus_def)
        qed
      qed
    qed
  qed
qed


lemma match_total:
  assumes "ns \<noteq> []" and "ntyp (last ns) = NoneT"
    and "\<forall>n\<in>set ns. \<forall>c. \<not> isl (matchOne buf n c)"
    and "\<forall>n\<in>set ns. ntyp n = Quant \<or> ntyp n = LQuant \<longrightarrow>
           0 \<le> mn0 n \<and> mn0 n \<le> mn1 n \<and> mn1 n < 4611686018427387904"
  shows "\<not> isl (match buf ns s)"
  using assms
proof (induction ns arbitrary: s rule: length_induct)
  case (1 ns)
  from "1.prems"(1) obtain n0 ns1 where ns: "ns = n0 # ns1" by (cases ns) auto
  show ?case
  proof (cases ns1)
    case Nil
    with ns "1.prems"(2) show ?thesis by (simp add: match_single)
  next
    case (Cons n1 nn)
    note ns1 = Cons
    have tot0: "\<forall>c. \<not> isl (matchOne buf n0 c)" using "1.prems"(3) ns by simp
    have sub1: "\<not> isl (match buf ns1 t)" for t
    proof -
      have "length ns1 < length ns" using ns by simp
      moreover have "ns1 \<noteq> []" "ntyp (last ns1) = NoneT" using "1.prems"(2) ns ns1 by simp_all
      moreover have "\<forall>n\<in>set ns1. \<forall>c. \<not> isl (matchOne buf n c)" using "1.prems"(3) ns by simp
      moreover have "\<forall>n\<in>set ns1. ntyp n = Quant \<or> ntyp n = LQuant \<longrightarrow>
           0 \<le> mn0 n \<and> mn0 n \<le> mn1 n \<and> mn1 n < 4611686018427387904"
        using "1.prems"(4) ns by simp
      ultimately show ?thesis using "1.IH" by blast
    qed
    show ?thesis
    proof (cases "is_quant (ntyp n1)")
      case False
      show ?thesis
      proof (cases s)
        case Nil
        with False show ?thesis
          unfolding ns ns1 match_unfold by (simp add: is_quant_def)
      next
        case (Cons c s1)
        from tot0 have "\<not> isl (matchOne buf n0 c)" by blast
        from not_isl_obtain [OF this] obtain m where m: "matchOne buf n0 c = Inr m" by blast
        from not_isl_obtain [OF sub1 [of s1]] obtain v where v: "match buf (n1 # nn) s1 = Inr v"
          by (auto simp: ns1)
        from False Cons m v show ?thesis
          unfolding ns ns1 match_unfold by (simp add: is_quant_def)
      qed
    next
      case q: True
      have nn_ne: "nn \<noteq> []"
      proof
        assume "nn = []"
        with ns ns1 "1.prems"(2) have "ntyp n1 = NoneT" by simp
        with q show False by (simp add: is_quant_def)
      qed
      have np: "\<forall>k\<le>length s. \<not> isl (match buf nn (drop k s))"
      proof (intro allI impI)
        fix k
        have "length nn < length ns" using ns ns1 by simp
        moreover have "ntyp (last nn) = NoneT" using "1.prems"(2) ns ns1 nn_ne by simp
        moreover have "\<forall>n\<in>set nn. \<forall>c. \<not> isl (matchOne buf n c)"
          using "1.prems"(3) ns ns1 by simp
        moreover have "\<forall>n\<in>set nn. ntyp n = Quant \<or> ntyp n = LQuant \<longrightarrow>
             0 \<le> mn0 n \<and> mn0 n \<le> mn1 n \<and> mn1 n < 4611686018427387904"
          using "1.prems"(4) ns ns1 by simp
        ultimately show "\<not> isl (match buf nn (drop k s))" using "1.IH" nn_ne by blast
      qed
      have b: "ntyp n1 = Quant \<or> ntyp n1 = LQuant \<Longrightarrow>
          0 \<le> mn0 n1 \<and> mn0 n1 \<le> mn1 n1 \<and> mn1 n1 < 4611686018427387904"
        using "1.prems"(4) ns ns1 by auto
      have g: "\<not> isl (matchQuant buf (n0 # n1 # nn) s mn mx)"
        if "0 \<le> mn" "mn \<le> mx" "mx < 4611686018427387904" for mn mx
      proof -
        from that have "0 \<le> mx" "mx < 9223372036854775808" by simp_all
        from matchQuant_total_run [OF tot0 that(1) this np] show ?thesis by simp
      qed
      have l: "\<not> isl (matchLQuant buf (n0 # n1 # nn) s mn mx)"
        if "0 \<le> mn" "mn \<le> mx" "mx < 4611686018427387904" for mn mx
        using matchLQuant_total_run [OF tot0 that np] by simp
      from q consider "ntyp n1 = QMark" | "ntyp n1 = LQMark" | "ntyp n1 = Quant"
        | "ntyp n1 = LQuant" | "ntyp n1 = Star" | "ntyp n1 = LStar" | "ntyp n1 = PlusT"
        | "ntyp n1 = LPlus"
        by (auto simp: is_quant_def)
      then show ?thesis
      proof cases
        case 1 then show ?thesis unfolding ns ns1 match_unfold using g [of 0 1] by simp
      next
        case 2 then show ?thesis unfolding ns ns1 match_unfold using l [of 0 1] by simp
      next
        case 3 then show ?thesis unfolding ns ns1 match_unfold
          using g [of "mn0 n1" "mn1 n1"] b by simp
      next
        case 4 then show ?thesis unfolding ns ns1 match_unfold
          using l [of "mn0 n1" "mn1 n1"] b by simp
      next
        case 5 then show ?thesis unfolding ns ns1 match_unfold
          using g [of 0 MaxPlus] by (simp add: MaxPlus_def)
      next
        case 6 then show ?thesis unfolding ns ns1 match_unfold
          using l [of 0 MaxPlus] by (simp add: MaxPlus_def)
      next
        case 7 then show ?thesis unfolding ns ns1 match_unfold
          using g [of 1 MaxPlus] by (simp add: MaxPlus_def)
      next
        case 8 then show ?thesis unfolding ns ns1 match_unfold
          using l [of 1 MaxPlus] by (simp add: MaxPlus_def)
      qed
    qed
  qed
qed

lemma match_total_suffix:
  assumes "ns \<noteq> []" and "ntyp (last ns) = NoneT"
    and "\<forall>n\<in>set ns. \<forall>c. \<not> isl (matchOne buf n c)"
    and "\<forall>n\<in>set ns. ntyp n = Quant \<or> ntyp n = LQuant \<longrightarrow>
           0 \<le> mn0 n \<and> mn0 n \<le> mn1 n \<and> mn1 n < 4611686018427387904"
    and "k < length ns"
  shows "\<not> isl (match buf (drop k ns) s)"
proof (rule match_total)
  show "drop k ns \<noteq> []" using assms(5) by simp
  show "ntyp (last (drop k ns)) = NoneT" using assms(2,5) by simp
  show "\<forall>n\<in>set (drop k ns). \<forall>c. \<not> isl (matchOne buf n c)"
    using assms(3) by (meson in_set_dropD)
  show "\<forall>n\<in>set (drop k ns). ntyp n = Quant \<or> ntyp n = LQuant \<longrightarrow>
           0 \<le> mn0 n \<and> mn0 n \<le> mn1 n \<and> mn1 n < 4611686018427387904"
    using assms(4) by (meson in_set_dropD)
qed

text \<open>
  The matcher returns a boolean on every input when the last node is the sentinel, the
  byte test of every node returns a boolean on every byte, and the bounds of every
  \<open>{m,n}\<close> satisfy \<open>0 \<le> m \<le> n\<close> (below \<open>2^62\<close>).
\<close>

theorem Match_total:
  assumes "nodes re \<noteq> []" and "ntyp (last (nodes re)) = NoneT"
    and "\<forall>n\<in>set (nodes re). \<forall>c. \<not> isl (matchOne (buffer re) n c)"
    and "\<forall>n\<in>set (nodes re). ntyp n = Quant \<or> ntyp n = LQuant \<longrightarrow>
           0 \<le> mn0 n \<and> mn0 n \<le> mn1 n \<and> mn1 n < 4611686018427387904"
  shows "\<not> isl (Match re s)"
proof -
  from assms(1) obtain n0 ns1 where ns: "nodes re = n0 # ns1" by (cases "nodes re") auto
  have a: "\<not> isl (match (buffer re) (nodes re) t)" for t
    by (rule match_total [OF assms])
  have l: "\<not> isl (Match_loop (buffer re) (nodes re) t)" for t
    by (simp add: Match_loop_total a)
  show ?thesis
  proof (cases "ntyp n0 = Begin")
    case False
    with ns l show ?thesis by (simp add: Match_def)
  next
    case True
    with assms(2) ns have "0 < length ns1" by (cases ns1) auto
    then have "1 < length (nodes re)" using ns by simp
    from match_total_suffix [OF assms this, of s] ns True show ?thesis
      by (simp add: Match_def)
  qed
qed

lemma Match_loop_lazy_form:
  assumes "\<forall>t. match buf (map lazy_form ns) t = match buf ns t"
  shows "Match_loop buf (map lazy_form ns) s = Match_loop buf ns s"
  using assms by (induction s) (simp_all split: sum.splits)

text \<open>
  On a pattern whose last node is the sentinel, whose byte tests return a boolean on
  every byte and whose bounds \<open>{m,n}\<close> satisfy \<open>0 \<le> m \<le> n\<close> (below \<open>2^62\<close>, as every
  bound up to \<open>MaxQuant\<close> is), the lazy form returns what the pattern returns, on every
  input.
\<close>

theorem Match_lazy_form:
  assumes "nodes re \<noteq> []" and "ntyp (last (nodes re)) = NoneT"
    and "\<forall>n\<in>set (nodes re). \<forall>c. \<not> isl (matchOne (buffer re) n c)"
    and "\<forall>n\<in>set (nodes re). ntyp n = Quant \<or> ntyp n = LQuant \<longrightarrow>
           0 \<le> mn0 n \<and> mn0 n \<le> mn1 n \<and> mn1 n < 4611686018427387904"
  shows "Match \<lparr>nodes = map lazy_form (nodes re), buffer = buffer re\<rparr> s = Match re s"
proof -
  from assms(1) obtain n0 ns1 where ns: "nodes re = n0 # ns1" by (cases "nodes re") auto
  have np: "\<forall>k<length (nodes re). \<forall>t. \<not> isl (match (buffer re) (drop k (nodes re)) t)"
    using match_total_suffix [OF assms] by blast
  have a: "match (buffer re) (map lazy_form (nodes re)) t = match (buffer re) (nodes re) t" for t
    by (rule match_lazy_form [OF assms(3,4) np])
  have b: "match (buffer re) (map lazy_form ns1) t = match (buffer re) ns1 t" for t
  proof (rule match_lazy_form)
    show "\<forall>n\<in>set ns1. \<forall>c. \<not> isl (matchOne (buffer re) n c)" using assms(3) ns by simp
    show "\<forall>n\<in>set ns1. ntyp n = Quant \<or> ntyp n = LQuant \<longrightarrow>
           0 \<le> mn0 n \<and> mn0 n \<le> mn1 n \<and> mn1 n < 4611686018427387904"
      using assms(4) ns by simp
    show "\<forall>k<length ns1. \<forall>t. \<not> isl (match (buffer re) (drop k ns1) t)"
    proof (intro allI impI)
      fix k t assume "k < length ns1"
      then have "Suc k < length (nodes re)" using ns by simp
      with np have "\<not> isl (match (buffer re) (drop (Suc k) (nodes re)) t)" by blast
      then show "\<not> isl (match (buffer re) (drop k ns1) t)" using ns by simp
    qed
  qed
  have l: "Match_loop (buffer re) (map lazy_form (nodes re)) s = Match_loop (buffer re) (nodes re) s"
    by (rule Match_loop_lazy_form) (simp add: a)
  from l b ns show ?thesis
    by (simp add: Match_def lazy_form_def [of n0] lazy_type_simps)
qed

theorem Match_lazy_form_witness:
  "Match \<lparr>nodes = [zero_node\<lparr>ntyp := CharT, ch := CHR ''a''\<rparr>, zero_node\<lparr>ntyp := LQMark\<rparr>,
                    zero_node], buffer = []\<rparr> ''ba''
     = Match \<lparr>nodes = [zero_node\<lparr>ntyp := CharT, ch := CHR ''a''\<rparr>, zero_node\<lparr>ntyp := QMark\<rparr>,
                    zero_node], buffer = []\<rparr> ''ba''
   \<and> Match \<lparr>nodes = [zero_node\<lparr>ntyp := CharT, ch := CHR ''a''\<rparr>, zero_node\<lparr>ntyp := QMark\<rparr>,
                    zero_node], buffer = []\<rparr> ''ba'' = Inr True"
proof -
  let ?a = "zero_node\<lparr>ntyp := CharT, ch := CHR ''a''\<rparr>"
  let ?q = "zero_node\<lparr>ntyp := QMark\<rparr>"
  let ?re = "\<lparr>nodes = [?a, ?q, zero_node], buffer = []\<rparr>"
  have 0: "nodes ?re \<noteq> []" "ntyp (last (nodes ?re)) = NoneT"
    by (simp_all add: zero_node_def)
  have 1: "\<forall>n\<in>set (nodes ?re). \<forall>c. \<not> isl (matchOne (buffer ?re) n c)"
    by (simp add: matchOne_def zero_node_def)
  have 2: "\<forall>n\<in>set (nodes ?re). ntyp n = Quant \<or> ntyp n = LQuant \<longrightarrow>
           0 \<le> mn0 n \<and> mn0 n \<le> mn1 n \<and> mn1 n < 4611686018427387904"
    by (simp add: zero_node_def)
  have "Match \<lparr>nodes = map lazy_form (nodes ?re), buffer = buffer ?re\<rparr> ''ba'' = Match ?re ''ba''"
    by (rule Match_lazy_form [OF 0 1 2])
  moreover have "Match ?re ''ba'' = Inr True" by code_simp
  ultimately show ?thesis by (simp add: lazy_form_def lazy_type_def zero_node_def)
qed

text \<open>
  C7. A pattern and its lazy form should match the same inputs. With the wrapped bound
  of C3 they do not: \<open>a{9223372036854775808}\<close> matches \<open>a\<close> (the greedy loop consumes
  the \<open>a\<close> and the rest of the pattern matches the empty suffix), while
  \<open>a{9223372036854775808}?\<close> does not (the lazy routine consumes the \<open>a\<close>, finds its
  counter \<open>min\<close> different from zero and returns \<open>false\<close>). The bound is outside
  the range in which the two forms agree.
\<close>

theorem greedy_lazy_differ_on_wrapped_bound:
  "\<not> isl (Compile ''a{9223372036854775808}'')
   \<and> \<not> isl (Compile ''a{9223372036854775808}?'')
   \<and> Match (projr (Compile ''a{9223372036854775808}'')) ''a'' = Inr True
   \<and> Match (projr (Compile ''a{9223372036854775808}?'')) ''a'' = Inr False"
  unfolding Compile_def by code_simp

section \<open>The class buffer\<close>

lemma encode_class_lit:
  "c \<noteq> CHR 0x5C \<Longrightarrow> encode_class (c # cs) = c # encode_class cs"
  by (cases cs) simp_all

lemma seg1: "i < length xs \<Longrightarrow> take (Suc 0) (drop i xs) = [xs ! i]"
  by (simp add: take_Suc_conv_app_nth)

lemma seg2: "Suc i < length xs \<Longrightarrow> take 2 (drop i xs) = [xs ! i, xs ! Suc i]"
  by (simp add: numeral_2_eq_2 take_Suc_conv_app_nth)

lemma seg3: "Suc (Suc i) < length xs \<Longrightarrow> take 3 (drop i xs) = [xs ! i, xs ! Suc i, xs ! Suc (Suc i)]"
  by (simp add: numeral_3_eq_3 take_Suc_conv_app_nth)

lemma put1: "idx < length buf \<Longrightarrow> take (Suc idx) (buf[idx := c]) = take idx buf @ [c]"
  by (simp add: take_Suc_conv_app_nth)

lemma put2:
  "Suc idx < length buf \<Longrightarrow>
     take (Suc (Suc idx)) (buf[idx := c, Suc idx := d]) = take idx buf @ [c, d]"
  by (simp add: take_Suc_conv_app_nth nth_list_update)

lemma class_range_cases:
  assumes "class_range expr i idx buf = Inr (i1, idx1, buf1)"
  shows "Suc i < length expr \<and>
    ((i1 = i \<and> idx1 = idx \<and> buf1 = buf)
     \<or> (i1 = Suc i \<and> idx1 = Suc idx \<and> buf1 = buf[idx := CHR ''-''] \<and> idx < length buf
          \<and> expr ! Suc i = CHR ''-'' \<and> Suc (Suc i) < length expr))"
  using assms by (auto simp: class_range_def Let_def split: if_splits)

lemma isMetaOrEsc_nonzero: "isMetaOrEsc d \<Longrightarrow> d \<noteq> CHR 0x00"
  by (auto simp: isMetaOrEsc_def isMeta_def)

lemma not_isMetaOrEsc_literal: "\<not> isMetaOrEsc d \<Longrightarrow> d \<noteq> CHR 0x5C"
  by (auto simp: isMetaOrEsc_def)

lemma class_body_token:
  assumes "class_body expr i idx buf = Inr (i1, idx1, buf1)"
    and "i < length expr" and "idx \<le> length buf"
  shows "\<exists>enc. i \<le> i1 \<and> i1 < length expr \<and> length buf1 = length buf \<and> idx1 \<le> length buf
     \<and> take idx1 buf1 = take idx buf @ enc
     \<and> (\<forall>rest. encode_class (take (Suc i1 - i) (drop i expr) @ rest) = enc @ encode_class rest)
     \<and> (\<forall>rest. wf_payload rest \<longrightarrow> wf_payload (enc @ rest))"
proof (cases "expr ! i = CHR 0x5C")
  case False
  with assms(1) have w: "idx < length buf"
    and r: "class_range expr i (Suc idx) (buf[idx := expr ! i]) = Inr (i1, idx1, buf1)"
    by (auto simp: class_body_def Let_def split: if_splits)
  from class_range_cases [OF r] show ?thesis
  proof (elim conjE disjE)
    assume "i1 = i" "idx1 = Suc idx" "buf1 = buf[idx := expr ! i]"
    with w False assms(2) show ?thesis
      by (intro exI [of _ "[expr ! i]"]) (simp add: put1 seg1 encode_class_lit)
  next
    assume a: "i1 = Suc i" "idx1 = Suc (Suc idx)" "buf1 = buf[idx := expr ! i, Suc idx := CHR ''-'']"
      "Suc idx < length (buf[idx := expr ! i])" "expr ! Suc i = CHR ''-''" "Suc (Suc i) < length expr"
    with False show ?thesis
      by (intro exI [of _ "[expr ! i, CHR ''-'']"])
         (simp add: put2 seg2 encode_class_lit Suc_diff_le numeral_2_eq_2 [symmetric])
  qed
next
  case True
  with assms(1) have ii: "Suc i < length expr"
    by (auto simp: class_body_def Let_def split: if_splits)
  show ?thesis
  proof (cases "isMetaOrEsc (expr ! Suc i)")
    case m: True
    with True assms(1) ii have w: "Suc idx < length buf"
      and r: "(Suc (Suc i) < length expr \<and> i1 = Suc i \<and> idx1 = Suc (Suc idx)
               \<and> buf1 = buf[idx := expr ! i, Suc idx := expr ! Suc i])
          \<or> class_range expr (Suc i) (Suc (Suc idx)) (buf[idx := expr ! i, Suc idx := expr ! Suc i])
               = Inr (i1, idx1, buf1) \<and> expr ! Suc (Suc i) = CHR 0x5C"
      by (auto simp: class_body_def Let_def split: if_splits)
    from r have r': "Suc (Suc i) < length expr \<and> i1 = Suc i \<and> idx1 = Suc (Suc idx)
               \<and> buf1 = buf[idx := expr ! i, Suc idx := expr ! Suc i]"
      by (auto dest!: class_range_cases)
    with True m w ii show ?thesis
      by (intro exI [of _ "[expr ! i, expr ! Suc i]"])
         (simp add: put2 seg2 Suc_diff_le numeral_2_eq_2 [symmetric] isMetaOrEsc_nonzero)
  next
    case m: False
    with True assms(1) ii have w: "idx < length buf"
      and r: "class_range expr (Suc i) (Suc idx) (buf[idx := expr ! Suc i]) = Inr (i1, idx1, buf1)"
      by (auto simp: class_body_def Let_def split: if_splits)
    from class_range_cases [OF r] show ?thesis
    proof (elim conjE disjE)
      assume "i1 = Suc i" "idx1 = Suc idx" "buf1 = buf[idx := expr ! Suc i]"
      with w True m ii show ?thesis
        by (intro exI [of _ "[expr ! Suc i]"])
           (simp add: put1 seg2 Suc_diff_le numeral_2_eq_2 [symmetric] not_isMetaOrEsc_literal)
    next
      assume a: "i1 = Suc (Suc i)" "idx1 = Suc (Suc idx)"
        "buf1 = buf[idx := expr ! Suc i, Suc idx := CHR ''-'']"
        "Suc idx < length (buf[idx := expr ! Suc i])" "expr ! Suc (Suc i) = CHR ''-''"
        "Suc (Suc (Suc i)) < length expr"
      with True m show ?thesis
        by (intro exI [of _ "[expr ! Suc i, CHR ''-'']"])
           (simp add: put2 seg3 encode_class_lit Suc_diff_le numeral_3_eq_3 [symmetric]
              not_isMetaOrEsc_literal)
    qed
  qed
qed


lemma seg_split:
  "i \<le> m \<Longrightarrow> m \<le> i' \<Longrightarrow>
     take (i' - i) (drop i xs) = take (m - i) (drop i xs) @ take (i' - m) (drop m xs)"
proof -
  assume a: "i \<le> m" "m \<le> i'"
  then have "i' - i = (m - i) + (i' - m)" by simp
  then have "take (i' - i) (drop i xs) = take (m - i) (drop i xs) @ take (i' - m) (drop (m - i) (drop i xs))"
    by (simp only: take_add)
  with a show ?thesis by simp
qed

lemma class_loop_encoding:
  assumes "class_loop expr i idx buf = Inr (i', idx', buf')"
    and "i \<le> length expr" and "idx \<le> length buf"
  shows "i \<le> i' \<and> i' \<le> length expr \<and> length buf' = length buf \<and> idx' \<le> length buf
     \<and> take idx' buf' = take idx buf @ encode_class (take (i' - i) (drop i expr))
     \<and> (\<forall>rest. wf_payload rest \<longrightarrow>
           wf_payload (encode_class (take (i' - i) (drop i expr)) @ rest))"
  using assms
proof (induction expr i idx buf rule: class_loop.induct)
  case (1 expr i idx buf)
  show ?case
  proof (cases "i < length expr \<and> expr ! i \<noteq> CHR '']''")
    case False
    with "1.prems" show ?thesis by (simp add: class_loop.simps)
  next
    case True
    with "1.prems"(1) obtain i1 idx1 buf1 where
      b: "class_body expr i idx buf = Inr (i1, idx1, buf1)" and
      l: "class_loop expr (i1 + 1) idx1 buf1 = Inr (i', idx', buf')"
      by (subst (asm) class_loop.simps) (auto split: sum.splits)
    from class_body_token [OF b] True "1.prems"(3) obtain enc where
      t: "i \<le> i1" "i1 < length expr" "length buf1 = length buf" "idx1 \<le> length buf"
        "take idx1 buf1 = take idx buf @ enc"
        "\<forall>rest. encode_class (take (Suc i1 - i) (drop i expr) @ rest) = enc @ encode_class rest"
        "\<forall>rest. wf_payload rest \<longrightarrow> wf_payload (enc @ rest)"
      by blast
    from t have p: "i1 + 1 \<le> length expr" "idx1 \<le> length buf1" by simp_all
    from "1.IH" [OF True b refl refl l p]
    have ih: "i1 + 1 \<le> i'" "i' \<le> length expr" "length buf' = length buf1" "idx' \<le> length buf1"
      "take idx' buf' = take idx1 buf1 @ encode_class (take (i' - (i1 + 1)) (drop (i1 + 1) expr))"
      "\<forall>rest. wf_payload rest \<longrightarrow>
         wf_payload (encode_class (take (i' - (i1 + 1)) (drop (i1 + 1) expr)) @ rest)"
      by simp_all
    have "take (i' - i) (drop i expr)
        = take (Suc i1 - i) (drop i expr) @ take (i' - Suc i1) (drop (Suc i1) expr)"
      using t(1) ih(1) by (intro seg_split) simp_all
    with t(6) have e: "encode_class (take (i' - i) (drop i expr))
        = enc @ encode_class (take (i' - Suc i1) (drop (Suc i1) expr))"
      by simp
    have "\<forall>rest. wf_payload rest \<longrightarrow>
        wf_payload (encode_class (take (i' - i) (drop i expr)) @ rest)"
      unfolding e using ih(6) t(7) by simp
    with e ih t show ?thesis by simp
  qed
qed

text \<open>
  C9, as stated, fails for an escaped backslash: the class \<open>[\\]\<close> (a backslash escaping
  a backslash) is stored as the two bytes backslash, backslash and the terminating zero,
  not as one backslash: \<open>isMetaOrEsc\<close> treats the backslash like the meta-letters.
\<close>

theorem escaped_backslash_is_preserved:
  "\<not> isl (Compile [CHR ''['', CHR 0x5C, CHR 0x5C, CHR '']''])
   \<and> map ntyp (take 2 (nodes (projr (Compile [CHR ''['', CHR 0x5C, CHR 0x5C, CHR '']'']))))
       = [Class, NoneT]
   \<and> take 3 (slice (buffer (projr (Compile [CHR ''['', CHR 0x5C, CHR 0x5C, CHR '']''])))
         (ccl (hd (nodes (projr (Compile [CHR ''['', CHR 0x5C, CHR 0x5C, CHR '']''])))))) 
       = [CHR 0x5C, CHR 0x5C, CHR 0x00]"
  unfolding Compile_def by code_simp

text \<open>
  C9, amended. Whenever the case \<open>[\<close> of \<open>compile\<close> succeeds, at the pattern index \<open>i\<close>
  and for the node \<open>j\<close>, it ends on the closing bracket, the slice \<open>ccl\<close> of the node
  starts at the buffer index \<open>idx\<close> it was entered with, and the bytes written, read
  through that slice, are \<open>encode_class\<close> of the bytes between the brackets (after the
  \<open>^\<close> of a negated class) followed by a zero byte.
\<close>

theorem class_payload_encoding:
  assumes "compile_class expr i j idx ns buf = Inr (i', idx', q', ns', buf')"
    and "i < length expr" and "j < length ns"
  shows "expr ! i' = CHR '']''
    \<and> ccl (ns' ! j) = Some idx
    \<and> take (idx' - idx) (slice buf' (ccl (ns' ! j)))
        = encode_class (take (i' - (if next_is expr i CHR ''^'' then i + 2 else i + 1))
            (drop (if next_is expr i CHR ''^'' then i + 2 else i + 1) expr)) @ [CHR 0x00]"
proof -
  let ?start = "if next_is expr i CHR ''^'' then i + 2 else i + 1"
  from assms(1) obtain i2 idx2 buf2 where
    l: "class_loop expr ?start idx buf = Inr (i2, idx2, buf2)" and
    r: "idx \<le> length buf" "i2 < length expr" "expr ! i2 = CHR '']''" "idx2 < length buf2"
       "i' = i2" "idx' = idx2 + 1" "buf' = buf2[idx2 := CHR 0x00]"
       "ns' = set_ccl (set_typ ns j (if next_is expr i CHR ''^'' then NClass else Class)) j idx"
    by (auto simp: compile_class_def Let_def split: if_splits sum.splits)
  have s: "?start \<le> length expr" using assms(2) by (auto simp: next_is_def)
  from class_loop_encoding [OF l s r(1)]
  have e: "idx2 \<le> length buf" "length buf2 = length buf"
    "take idx2 buf2 = take idx buf @ encode_class (take (i2 - ?start) (drop ?start expr))"
    by simp_all
  have "take (Suc idx2) buf' = take idx buf @ encode_class (take (i2 - ?start) (drop ?start expr)) @ [CHR 0x00]"
    using r(4) r(7) e(3) by (simp add: put1)
  then have "drop idx (take (Suc idx2) buf')
      = encode_class (take (i2 - ?start) (drop ?start expr)) @ [CHR 0x00]"
    using r(1) by simp
  then have p: "take (idx' - idx) (drop idx buf')
      = encode_class (take (i2 - ?start) (drop ?start expr)) @ [CHR 0x00]"
    using r(6) by (simp add: drop_take)
  have c: "ccl (ns' ! j) = Some idx"
    using r(8) assms(3) by (simp add: set_ccl_def set_typ_def)
  from p c r show ?thesis by (simp add: slice_def)
qed

theorem class_payload_encoding_witness:
  "compile_class [CHR ''['', CHR 0x5C, CHR ''d'', CHR 0x5C, CHR ''-'', CHR 0x5C, CHR 0x5C, CHR ''x'', CHR '']'']
      0 0 0 [zero_node] (replicate 8 (CHR 0x00))
     = Inr (8, 7, True, [zero_node\<lparr>ntyp := Class, ccl := Some 0\<rparr>],
            [CHR 0x5C, CHR ''d'', CHR ''-'', CHR 0x5C, CHR 0x5C, CHR ''x'', CHR 0x00, CHR 0x00])
   \<and> encode_class [CHR 0x5C, CHR ''d'', CHR 0x5C, CHR ''-'', CHR 0x5C, CHR 0x5C, CHR ''x'']
     = [CHR 0x5C, CHR ''d'', CHR ''-'', CHR 0x5C, CHR 0x5C, CHR ''x'']
   \<and> take 7 (slice [CHR 0x5C, CHR ''d'', CHR ''-'', CHR 0x5C, CHR 0x5C, CHR ''x'', CHR 0x00, CHR 0x00] (Some 0))
     = encode_class [CHR 0x5C, CHR ''d'', CHR 0x5C, CHR ''-'', CHR 0x5C, CHR 0x5C, CHR ''x''] @ [CHR 0x00]"
proof -
  let ?p = "[CHR ''['', CHR 0x5C, CHR ''d'', CHR 0x5C, CHR ''-'', CHR 0x5C, CHR 0x5C, CHR ''x'', CHR '']'']"
  have c: "compile_class ?p 0 0 0 [zero_node] (replicate 8 (CHR 0x00))
     = Inr (8, 7, True, [zero_node\<lparr>ntyp := Class, ccl := Some 0\<rparr>],
            [CHR 0x5C, CHR ''d'', CHR ''-'', CHR 0x5C, CHR 0x5C, CHR ''x'', CHR 0x00, CHR 0x00])"
    by code_simp
  have e: "encode_class [CHR 0x5C, CHR ''d'', CHR 0x5C, CHR ''-'', CHR 0x5C, CHR 0x5C, CHR ''x'']
     = [CHR 0x5C, CHR ''d'', CHR ''-'', CHR 0x5C, CHR 0x5C, CHR ''x'']"
    by code_simp
  from class_payload_encoding [OF c] c e show ?thesis
    by (simp add: next_is_def)
qed

end
